theory Spec2Isabelle
  imports Main "HOL-Library.Multiset"
begin

section \<open>The flow router: route tree, insertion, matching and dispatch\<close>

text \<open>
  A shallow embedding of \<^verbatim>\<open>flow.go\<close>. The route tree is a datatype (the Go struct
  \<^verbatim>\<open>routeTree\<close> with its slice of child pointers; a child is addressed by its index in
  that slice), the in-place mutations of \<^verbatim>\<open>addRoute\<close> return the rebuilt tree, a Go map
  whose keys are enumerated (\<^verbatim>\<open>handlers\<close>, \<^verbatim>\<open>allowed\<close>) is an association list with
  distinct keys, the parameter map is a partial function, and the panic of
  \<^verbatim>\<open>regexp.MustCompile\<close> is an error value.
\<close>

subsection \<open>The functions of package strings that the router calls\<close>

text \<open>\<^verbatim>\<open>strings.Trim(s, cutset)\<close>: all leading and trailing bytes of the cutset removed.\<close>

definition Trim :: "string \<Rightarrow> string \<Rightarrow> string" where
  "Trim s cutset =
     rev (dropWhile (\<lambda>c. c \<in> set cutset) (rev (dropWhile (\<lambda>c. c \<in> set cutset) s)))"

text \<open>\<^verbatim>\<open>strings.Split(s, sep)\<close> for a separator of one byte; \<^verbatim>\<open>Split("", "/")\<close> is \<^verbatim>\<open>[""]\<close>.\<close>

fun Split :: "string \<Rightarrow> char \<Rightarrow> string list" where
  "Split [] sep = [[]]"
| "Split (c # cs) sep =
     (if c = sep then [] # Split cs sep
      else (case Split cs sep of
              [] \<Rightarrow> [[c]]
            | x # xs \<Rightarrow> (c # x) # xs))"

text \<open>\<^verbatim>\<open>strings.Join(elems, sep)\<close>.\<close>

fun Join :: "string list \<Rightarrow> string \<Rightarrow> string" where
  "Join [] sep = []"
| "Join [x] sep = x"
| "Join (x # y # ys) sep = x @ sep @ Join (y # ys) sep"

definition HasPrefix :: "string \<Rightarrow> string \<Rightarrow> bool" where
  "HasPrefix s pre = (take (length pre) s = pre)"

definition TrimPrefix :: "string \<Rightarrow> string \<Rightarrow> string" where
  "TrimPrefix s pre = (if HasPrefix s pre then drop (length pre) s else s)"

text \<open>\<^verbatim>\<open>strings.Cut(s, sep)\<close> for a separator of one byte: the text before and after its
  first occurrence, and whether it occurs.\<close>

definition Cut :: "string \<Rightarrow> char \<Rightarrow> string \<times> string \<times> bool" where
  "Cut s sep =
     (if sep \<in> set s
      then (takeWhile (\<lambda>c. c \<noteq> sep) s, tl (dropWhile (\<lambda>c. c \<noteq> sep) s), True)
      else (s, [], False))"

text \<open>\<^verbatim>\<open>strings.ToUpper\<close> on ASCII text (method names are ASCII tokens): the letters
  a to z are mapped to A to Z, every other byte is kept.\<close>

definition upperChar :: "char \<Rightarrow> char" where
  "upperChar c =
     (case map_of (zip ''abcdefghijklmnopqrstuvwxyz'' ''ABCDEFGHIJKLMNOPQRSTUVWXYZ'') c of
        Some u \<Rightarrow> u
      | None \<Rightarrow> c)"

definition ToUpper :: "string \<Rightarrow> string" where
  "ToUpper s = map upperChar s"

fun contains :: "string list \<Rightarrow> string \<Rightarrow> bool" where
  "contains [] item = False"
| "contains (s # slice) item = (if s = item then True else contains slice item)"

subsection \<open>Compiled patterns\<close>

text \<open>
  Package \<^verbatim>\<open>regexp\<close> is a library the router only calls. A compiled pattern is
  represented by its syntax tree, for the fragment of the syntax that the patterns of
  the repository use; \<open>matchEnds re s i\<close> lists the positions where a match of \<open>re\<close>
  that starts at position \<open>i\<close> of \<open>s\<close> can end. No flags are set: \<^verbatim>\<open>^\<close> and \<^verbatim>\<open>$\<close> are
  the beginning and the end of the text, and \<^verbatim>\<open>.\<close> is any byte but the newline.
\<close>

datatype regexp =
    EmptyMatch
  | Literal char
  | CharRange char char
  | AnyChar
  | BeginText
  | EndText
  | Concat regexp regexp
  | Alternate regexp regexp
  | Star regexp

fun starClosure :: "(nat \<Rightarrow> nat list) \<Rightarrow> nat \<Rightarrow> nat list \<Rightarrow> nat list" where
  "starClosure f 0 ps = ps"
| "starClosure f (Suc n) ps = ps @ starClosure f n (concat (map f ps))"

primrec matchEnds :: "regexp \<Rightarrow> string \<Rightarrow> nat \<Rightarrow> nat list" where
  "matchEnds EmptyMatch s i = [i]"
| "matchEnds (Literal c) s i = (if i < length s \<and> s ! i = c then [Suc i] else [])"
| "matchEnds (CharRange lo hi) s i =
     (if i < length s \<and> (of_char lo :: nat) \<le> of_char (s ! i) \<and>
         (of_char (s ! i) :: nat) \<le> of_char hi
      then [Suc i] else [])"
| "matchEnds AnyChar s i = (if i < length s \<and> s ! i \<noteq> CHR 0x0A then [Suc i] else [])"
| "matchEnds BeginText s i = (if i = 0 then [i] else [])"
| "matchEnds EndText s i = (if i = length s then [i] else [])"
| "matchEnds (Concat a b) s i = concat (map (matchEnds b s) (matchEnds a s i))"
| "matchEnds (Alternate a b) s i = matchEnds a s i @ matchEnds b s i"
| "matchEnds (Star a) s i = starClosure (matchEnds a s) (length s) [i]"

text \<open>\<^verbatim>\<open>(*Regexp).MatchString\<close>: whether the text contains any match of the pattern.\<close>

definition MatchString :: "regexp \<Rightarrow> string \<Rightarrow> bool" where
  "MatchString re s = list_ex (\<lambda>i. matchEnds re s i \<noteq> []) [0..<Suc (length s)]"

subsection \<open>The route tree\<close>

datatype 'h routeTree =
  RouteTree
    (segment: string)
    (handlers: "(string \<times> 'h) list")
    (children: "'h routeTree list")
    (paramName: string)
    (isWildcard: bool)
    (rxPattern: "regexp option")

text \<open>Assignments to one field of a node.\<close>

fun setHandlers :: "(string \<times> 'h) list \<Rightarrow> 'h routeTree \<Rightarrow> 'h routeTree" where
  "setHandlers hs' (RouteTree s hs cs p w rx) = RouteTree s hs' cs p w rx"

fun setChildren :: "'h routeTree list \<Rightarrow> 'h routeTree \<Rightarrow> 'h routeTree" where
  "setChildren cs' (RouteTree s hs cs p w rx) = RouteTree s hs cs' p w rx"

fun setIsWildcard :: "bool \<Rightarrow> 'h routeTree \<Rightarrow> 'h routeTree" where
  "setIsWildcard w' (RouteTree s hs cs p w rx) = RouteTree s hs cs p w' rx"

fun setRxPattern :: "regexp option \<Rightarrow> 'h routeTree \<Rightarrow> 'h routeTree" where
  "setRxPattern rx' (RouteTree s hs cs p w rx) = RouteTree s hs cs p w rx'"

text \<open>\<^verbatim>\<open>m[k] = v\<close> on a Go map: the entry of an existing key is replaced, a new key is
  added.\<close>

fun mapStore :: "'k \<Rightarrow> 'v \<Rightarrow> ('k \<times> 'v) list \<Rightarrow> ('k \<times> 'v) list" where
  "mapStore k v [] = [(k, v)]"
| "mapStore k v ((k', v') # m) = (if k' = k then (k, v) # m else (k', v') # mapStore k v m)"

text \<open>\<^verbatim>\<open>node.handlers[method] = handler\<close>.\<close>

definition bindHandler :: "string \<Rightarrow> 'h \<Rightarrow> 'h routeTree \<Rightarrow> 'h routeTree" where
  "bindHandler method handler node = setHandlers (mapStore method handler (handlers node)) node"

subsection \<open>Insertion\<close>

text \<open>The loop of \<^verbatim>\<open>findOrCreateChild\<close>: the index of the first child with this segment
  and this parameter name.\<close>

fun childIndex :: "'h routeTree list \<Rightarrow> string \<Rightarrow> string \<Rightarrow> nat option" where
  "childIndex [] seg pname = None"
| "childIndex (child # cs) seg pname =
     (if segment child = seg \<and> paramName child = pname then Some 0
      else map_option Suc (childIndex cs seg pname))"

text \<open>\<^verbatim>\<open>findOrCreateChild\<close> returns the node, with the new child appended when none was
  found, and the index of the child it returns.\<close>

definition findOrCreateChild :: "'h routeTree \<Rightarrow> string \<Rightarrow> string \<Rightarrow> 'h routeTree \<times> nat" where
  "findOrCreateChild node seg pname =
     (case childIndex (children node) seg pname of
        Some i \<Rightarrow> (node, i)
      | None \<Rightarrow>
          (setChildren (children node @ [RouteTree seg [] [] pname False None]) node,
           length (children node)))"

datatype error = RegexpCompilePanic string | NilHandlerPanic

text \<open>\<^verbatim>\<open>rxCache.LoadOrStore(key, value)\<close>: the value already stored under the key, or
  the given one, which is then stored.\<close>

definition LoadOrStore ::
  "(string \<times> regexp) list \<Rightarrow> string \<Rightarrow> regexp \<Rightarrow> regexp \<times> (string \<times> regexp) list" where
  "LoadOrStore cache key v =
     (case map_of cache key of
        Some actual \<Rightarrow> (actual, cache)
      | None \<Rightarrow> (v, cache @ [(key, v)]))"

text \<open>
  The part of the loop body of \<^verbatim>\<open>addRoute\<close> that selects the child of \<open>current\<close> for
  a segment other than the wildcard marker: the node with the child in place (and its
  constraint assigned when the segment has one), the child's index and the cache.
  \<open>compile\<close> is \<^verbatim>\<open>regexp.MustCompile\<close>, \<open>None\<close> where it panics.
\<close>

definition selectChild ::
  "(string \<Rightarrow> regexp option) \<Rightarrow> (string \<times> regexp) list \<Rightarrow> 'h routeTree \<Rightarrow> string \<Rightarrow>
     error + ((string \<times> regexp) list \<times> 'h routeTree \<times> nat)" where
  "selectChild compile cache current seg =
     (if HasPrefix seg '':'' then
        (case Cut (TrimPrefix seg '':'') (CHR ''|'') of
           (pname, rxText, hasRx) \<Rightarrow>
             (case findOrCreateChild current [] pname of
                (current', i) \<Rightarrow>
                  (if hasRx then
                     (case compile rxText of
                        None \<Rightarrow> Inl (RegexpCompilePanic rxText)
                      | Some compiled \<Rightarrow>
                          (case LoadOrStore cache rxText compiled of
                             (rx, cache') \<Rightarrow>
                               Inr (cache',
                                    setChildren
                                      ((children current')
                                         [i := setRxPattern (Some rx) (children current' ! i)])
                                      current',
                                    i)))
                   else Inr (cache, current', i))))
      else
        (case findOrCreateChild current seg [] of
           (current', i) \<Rightarrow> Inr (cache, current', i)))"

fun addRoute ::
  "(string \<Rightarrow> regexp option) \<Rightarrow> (string \<times> regexp) list \<Rightarrow> 'h routeTree \<Rightarrow> string list \<Rightarrow>
     string \<Rightarrow> 'h \<Rightarrow> error + ((string \<times> regexp) list \<times> 'h routeTree)" where
  "addRoute compile cache current [] method handler = Inr (cache, current)"
| "addRoute compile cache current (seg # rest) method handler =
     (if seg = ''...'' then
        Inr (cache, bindHandler method handler (setIsWildcard True current))
      else
        (case selectChild compile cache current seg of
           Inl e \<Rightarrow> Inl e
         | Inr (cache', current', i) \<Rightarrow>
             (let child = children current' ! i;
                  child' = (if rest = [] then bindHandler method handler child else child)
              in (case addRoute compile cache' child' rest method handler of
                    Inl e \<Rightarrow> Inl e
                  | Inr (cache'', child'') \<Rightarrow>
                      Inr (cache'', setChildren ((children current')[i := child'']) current')))))"

subsection \<open>Matching\<close>

text \<open>A loop over the children that returns at the first child whose attempt succeeds.\<close>

fun firstMatch :: "('a \<Rightarrow> 'b option) \<Rightarrow> 'a list \<Rightarrow> 'b option" where
  "firstMatch f [] = None"
| "firstMatch f (x # xs) = (case f x of Some r \<Rightarrow> Some r | None \<Rightarrow> firstMatch f xs)"

lemma firstMatch_cong [fundef_cong]:
  "xs = ys \<Longrightarrow> (\<And>x. x \<in> set ys \<Longrightarrow> f x = g x) \<Longrightarrow> firstMatch f xs = firstMatch g ys"
  by (induction ys arbitrary: xs) (auto split: option.splits)

definition makeAllowedMethodsMap :: "(string \<times> 'h) list \<Rightarrow> (string \<times> bool) list" where
  "makeAllowedMethodsMap hs = map (\<lambda>(method, h). (method, True)) hs"

type_synonym params = "string \<rightharpoonup> string"

text \<open>The guard of the parameter loop:
  \<^verbatim>\<open>child.rxPattern != nil && !child.rxPattern.MatchString(segment)\<close>.\<close>

definition constraintRejects :: "'h routeTree \<Rightarrow> string \<Rightarrow> bool" where
  "constraintRejects child seg =
     (case rxPattern child of None \<Rightarrow> False | Some re \<Rightarrow> \<not> MatchString re seg)"

text \<open>
  \<^verbatim>\<open>findHandler\<close> returns three nils when nothing matches, and otherwise the handler map
  of the matched node (which is never nil: every node is created with a map), the
  parameters and the allowed methods; the caller tests the first component against nil.
  The failure is \<open>None\<close>. The only write to the map it was passed is the wildcard capture,
  on a path that returns a match at once, so passing the map by value changes nothing.
\<close>

fun findHandler ::
  "'h routeTree \<Rightarrow> string list \<Rightarrow> params \<Rightarrow>
     ((string \<times> 'h) list \<times> params \<times> (string \<times> bool) list) option" where
  "findHandler (RouteTree s hs cs p w rx) [] ps =
     (if hs \<noteq> [] then Some (hs, ps, makeAllowedMethodsMap hs) else None)"
| "findHandler (RouteTree s hs cs p w rx) (seg # remaining) ps =
     (if w then
        Some (hs, ps(''...'' \<mapsto> Join (seg # remaining) ''/''), makeAllowedMethodsMap hs)
      else
        (case firstMatch
                (\<lambda>child. if segment child = seg then findHandler child remaining ps else None)
                cs of
           Some r \<Rightarrow> Some r
         | None \<Rightarrow>
             firstMatch
               (\<lambda>child.
                  if paramName child \<noteq> [] then
                    (if constraintRejects child seg then None
                     else findHandler child remaining (ps(paramName child \<mapsto> seg)))
                  else None)
               cs))"

subsection \<open>The router\<close>

record Request =
  Method :: string
  EscapedPath :: string
  Context :: "string \<rightharpoonup> string"

record ResponseWriter =
  Header :: "string \<rightharpoonup> string"
  Status :: nat
  Body :: string

text \<open>A handler acts on the response writer; a middleware maps handlers to handlers.\<close>

type_synonym Handler = "Request \<Rightarrow> ResponseWriter \<Rightarrow> ResponseWriter"

record Mux =
  root :: "Handler routeTree"
  NotFound :: Handler
  MethodNotAllowed :: Handler
  Options :: Handler
  middlewares :: "(Handler \<Rightarrow> Handler) list"
  rxCache :: "(string \<times> regexp) list"

definition MethodGet :: string where "MethodGet = ''GET''"
definition MethodPost :: string where "MethodPost = ''POST''"
definition MethodPut :: string where "MethodPut = ''PUT''"
definition MethodDelete :: string where "MethodDelete = ''DELETE''"
definition MethodPatch :: string where "MethodPatch = ''PATCH''"
definition MethodHead :: string where "MethodHead = ''HEAD''"
definition MethodOptions :: string where "MethodOptions = ''OPTIONS''"
definition MethodTrace :: string where "MethodTrace = ''TRACE''"
definition MethodConnect :: string where "MethodConnect = ''CONNECT''"

definition AllMethods :: "string list" where
  "AllMethods =
     [MethodGet, MethodHead, MethodPost, MethodPut, MethodPatch, MethodDelete, MethodConnect,
      MethodOptions, MethodTrace]"

text \<open>\<^verbatim>\<open>http.Error\<close> and the three default handlers of \<^verbatim>\<open>New\<close>, as far as status, body
  and the headers they set.\<close>

definition httpError :: "string \<Rightarrow> nat \<Rightarrow> Handler" where
  "httpError msg code r w =
     w\<lparr>Header := (Header w)(''Content-Type'' \<mapsto> ''text/plain; charset=utf-8'',
                              ''X-Content-Type-Options'' \<mapsto> ''nosniff''),
       Status := code,
       Body := Body w @ msg @ [CHR 0x0A]\<rparr>"

definition New :: Mux where
  "New =
     \<lparr>root = RouteTree [] [] [] [] False None,
      NotFound = httpError ''404 page not found'' 404,
      MethodNotAllowed = httpError ''Method Not Allowed'' 405,
      Options = (\<lambda>r w. w\<lparr>Status := 204\<rparr>),
      middlewares = [],
      rxCache = []\<rparr>"

text \<open>\<^verbatim>\<open>wrap\<close>: the loop runs from the last middleware down to the first.\<close>

fun wrapFrom :: "('h \<Rightarrow> 'h) list \<Rightarrow> nat \<Rightarrow> 'h \<Rightarrow> 'h" where
  "wrapFrom mws 0 handler = handler"
| "wrapFrom mws (Suc i) handler = wrapFrom mws i ((mws ! i) handler)"

definition wrap :: "Mux \<Rightarrow> Handler \<Rightarrow> Handler" where
  "wrap m handler = wrapFrom (middlewares m) (length (middlewares m)) handler"

definition Use :: "Mux \<Rightarrow> (Handler \<Rightarrow> Handler) list \<Rightarrow> Mux" where
  "Use m mw = m\<lparr>middlewares := middlewares m @ mw\<rparr>"

text \<open>The loop of \<^verbatim>\<open>Handle\<close> over the methods; it stops at the first panic.\<close>

fun addRoutes ::
  "(string \<Rightarrow> regexp option) \<Rightarrow> (string \<times> regexp) list \<Rightarrow> 'h routeTree \<Rightarrow> string list \<Rightarrow>
     string list \<Rightarrow> 'h \<Rightarrow> error + ((string \<times> regexp) list \<times> 'h routeTree)" where
  "addRoutes compile cache tree segments [] handler = Inr (cache, tree)"
| "addRoutes compile cache tree segments (method # methods) handler =
     (case addRoute compile cache tree segments (ToUpper method) handler of
        Inl e \<Rightarrow> Inl e
      | Inr (cache', tree') \<Rightarrow> addRoutes compile cache' tree' segments methods handler)"

definition Handle ::
  "(string \<Rightarrow> regexp option) \<Rightarrow> Mux \<Rightarrow> string \<Rightarrow> Handler \<Rightarrow> string list \<Rightarrow> error + Mux" where
  "Handle compile m pattern handler methods =
     (let methods1 = (if methods = [] then AllMethods else methods);
          methods2 = (if contains methods1 MethodGet \<and> \<not> contains methods1 MethodHead
                      then methods1 @ [MethodHead] else methods1);
          segments = Split (Trim pattern ''/'') (CHR ''/'');
          wrappedHandler = wrap m handler
      in (case addRoutes compile (rxCache m) (root m) segments methods2 wrappedHandler of
            Inl e \<Rightarrow> Inl e
          | Inr (cache', tree') \<Rightarrow> Inr (m\<lparr>root := tree', rxCache := cache'\<rparr>)))"

text \<open>
  \<^verbatim>\<open>stringMapKeys\<close> ranges over a Go map, whose iteration order is not specified:
  \<open>order\<close> is the order the runtime happens to choose, a rearrangement of the keys.
\<close>

definition stringMapKeys :: "(string list \<Rightarrow> string list) \<Rightarrow> (string \<times> bool) list \<Rightarrow> string list" where
  "stringMapKeys order m = order (map fst m)"

text \<open>\<^verbatim>\<open>allowed[r.Method]\<close>: the zero value \<^verbatim>\<open>false\<close> when the key is absent (also in
  the nil map).\<close>

definition allowedLookup :: "(string \<times> bool) list \<Rightarrow> string \<Rightarrow> bool" where
  "allowedLookup allowed method = (case map_of allowed method of Some b \<Rightarrow> b | None \<Rightarrow> False)"

text \<open>
  \<^verbatim>\<open>ServeHTTP\<close>. The request's context receives the captured parameters (each key is
  written once, so the order of that loop does not matter). Calling the nil handler
  that a lookup of an absent method would give panics.
\<close>

definition ServeHTTP ::
  "(string list \<Rightarrow> string list) \<Rightarrow> Mux \<Rightarrow> Request \<Rightarrow> ResponseWriter \<Rightarrow> error + ResponseWriter" where
  "ServeHTTP order m r w =
     (let path = Trim (EscapedPath r) ''/'';
          segments = Split path (CHR ''/'')
      in (case findHandler (root m) segments Map.empty of
            Some (handler, ps, allowed) \<Rightarrow>
              (if allowedLookup allowed (Method r) then
                 (case map_of handler (Method r) of
                    None \<Rightarrow> Inl NilHandlerPanic
                  | Some h \<Rightarrow> Inr (h (r\<lparr>Context := Context r ++ ps\<rparr>) w))
               else if allowed \<noteq> [] then
                 (let w' = w\<lparr>Header := (Header w)(''Allow'' \<mapsto>
                                 Join (stringMapKeys order allowed @ [MethodOptions]) '', '')\<rparr>
                  in if Method r = MethodOptions then Inr (wrap m (Options m) r w')
                     else Inr (wrap m (MethodNotAllowed m) r w'))
               else Inr (wrap m (NotFound m) r w))
          | None \<Rightarrow> Inr (wrap m (NotFound m) r w)))"

text \<open>
  The middleware of the test suite (\<^verbatim>\<open>createMiddleware\<close> in \<^verbatim>\<open>testMiddlewareChain\<close>): it
  logs its identifier and then calls the next handler. The log, the test's variable
  \<^verbatim>\<open>middlewareOrder\<close>, is kept in the response body.
\<close>

definition createMiddleware :: "string \<Rightarrow> Handler \<Rightarrow> Handler" where
  "createMiddleware ident next = (\<lambda>r w. next r (w\<lparr>Body := Body w @ ident\<rparr>))"

subsection \<open>Route trees that registrations build\<close>

text \<open>The pair by which \<^verbatim>\<open>findOrCreateChild\<close> compares children, and the pair under which
  \<^verbatim>\<open>addRoute\<close> looks up the child for a segment of a pattern.\<close>

definition nodeKey :: "'h routeTree \<Rightarrow> string \<times> string" where
  "nodeKey c = (segment c, paramName c)"

definition segmentKey :: "string \<Rightarrow> string \<times> string" where
  "segmentKey seg =
     (if HasPrefix seg '':'' then ([], fst (Cut (TrimPrefix seg '':'') (CHR ''|''))) else (seg, []))"

text \<open>The text of the constraint that a segment of a pattern supplies, if any.\<close>

definition segmentConstraint :: "string \<Rightarrow> string option" where
  "segmentConstraint seg =
     (if HasPrefix seg '':'' then
        (case Cut (TrimPrefix seg '':'') (CHR ''|'') of
           (pname, rxText, hasRx) \<Rightarrow> if hasRx then Some rxText else None)
      else None)"

text \<open>
  The invariant of the tree: no node is both a literal and a parameter node, a wildcard
  terminal has a binding, the bound methods of a node and the pairs of its children are
  pairwise different.
\<close>

fun wellFormed :: "'h routeTree \<Rightarrow> bool" where
  "wellFormed (RouteTree s hs cs p w rx) =
     ((s = [] \<or> p = []) \<and> (w \<longrightarrow> hs \<noteq> []) \<and> distinct (map fst hs) \<and>
      distinct (map nodeKey cs) \<and> (\<forall>c\<in>set cs. wellFormed c))"

text \<open>The trees that calls of \<^verbatim>\<open>addRoute\<close> build from the root node of \<^verbatim>\<open>New\<close>.\<close>

inductive reachableTree :: "(string \<Rightarrow> regexp option) \<Rightarrow> 'h routeTree \<Rightarrow> bool"
  for compile :: "string \<Rightarrow> regexp option" where
  empty: "reachableTree compile (RouteTree [] [] [] [] False None)"
| add: "reachableTree compile t \<Longrightarrow> addRoute compile cache t segments method h = Inr (cache', t') \<Longrightarrow>
        reachableTree compile t'"

fun subtrees :: "'h routeTree \<Rightarrow> 'h routeTree list" where
  "subtrees (RouteTree s hs cs p w rx) = RouteTree s hs cs p w rx # concat (map subtrees cs)"

text \<open>The node reached from a node by a list of pairs, each step taking the first child
  with the pair, as \<^verbatim>\<open>findOrCreateChild\<close> does.\<close>

fun nodeAt :: "'h routeTree \<Rightarrow> (string \<times> string) list \<Rightarrow> 'h routeTree option" where
  "nodeAt t [] = Some t"
| "nodeAt t (k # ks) =
     (case childIndex (children t) (fst k) (snd k) of
        None \<Rightarrow> None
      | Some i \<Rightarrow> nodeAt (children t ! i) ks)"

text \<open>The registry of compiled patterns holds, under a text, the pattern compiled from it.\<close>

definition cacheConsistent :: "(string \<Rightarrow> regexp option) \<Rightarrow> (string \<times> regexp) list \<Rightarrow> bool" where
  "cacheConsistent compile cache = (\<forall>(k, re)\<in>set cache. compile k = Some re)"

subsection \<open>Wildcard patterns\<close>

text \<open>A segment of a pattern that \<^verbatim>\<open>addRoute\<close> enters as a literal child, and is not empty;
  the walk from a node down its literal children that meets no wildcard terminal before
  its end; the trees that further registrations make of a tree; a node, reached by a list
  of pairs, that is a wildcard terminal and binds a method.\<close>

definition literalSegment :: "string \<Rightarrow> bool" where
  "literalSegment s = (s \<noteq> [] \<and> s \<noteq> ''...'' \<and> \<not> HasPrefix s '':'')"

fun noWildcardAbove :: "'h routeTree \<Rightarrow> string list \<Rightarrow> bool" where
  "noWildcardAbove t [] = True"
| "noWildcardAbove t (s # ss) =
     (\<not> isWildcard t \<and>
      (case childIndex (children t) s [] of
         None \<Rightarrow> True
       | Some i \<Rightarrow> noWildcardAbove (children t ! i) ss))"

inductive grownFrom :: "(string \<Rightarrow> regexp option) \<Rightarrow> 'h routeTree \<Rightarrow> 'h routeTree \<Rightarrow> bool"
  for compile :: "string \<Rightarrow> regexp option" and t :: "'h routeTree" where
  same: "grownFrom compile t t"
| add: "grownFrom compile t t1 \<Longrightarrow>
        addRoute compile cache t1 segments method h = Inr (cache', t2) \<Longrightarrow>
        grownFrom compile t t2"

definition wildcardBound :: "'h routeTree \<Rightarrow> (string \<times> string) list \<Rightarrow> string \<Rightarrow> bool" where
  "wildcardBound t ks method =
     (\<exists>n. nodeAt t ks = Some n \<and> isWildcard n \<and> map_of (handlers n) method \<noteq> None)"

subsection \<open>Handlers and requests of the test suite\<close>

text \<open>\<^verbatim>\<open>emptyHandler\<close> of the test suite does nothing; \<open>emptyWriter\<close> stands for a new
  \<^verbatim>\<open>httptest\<close> recorder and \<open>request\<close> for \<^verbatim>\<open>httptest.NewRequest\<close>, with an empty
  context.\<close>

definition emptyHandler :: Handler where
  "emptyHandler r w = w"

definition emptyWriter :: ResponseWriter where
  "emptyWriter = \<lparr>Header = Map.empty, Status = 0, Body = []\<rparr>"

definition request :: "string \<Rightarrow> string \<Rightarrow> Request" where
  "request method path = \<lparr>Method = method, EscapedPath = path, Context = Map.empty\<rparr>"

subsection \<open>Example routers\<close>

text \<open>Routers written out as records. For each of them a lemma below shows the calls of
  \<open>Handle\<close> on \<open>New\<close> that build it. \<open>noPatterns\<close> is \<^verbatim>\<open>regexp.MustCompile\<close> for routers
  whose patterns have no constraint: it is never called.\<close>

definition oneRoute :: Mux where
  "oneRoute =
     New\<lparr>root := RouteTree [] []
        [RouteTree ''one'' [(''GET'', emptyHandler), (''HEAD'', emptyHandler)] [] [] False None]
        [] False None\<rparr>"

definition optionsRoute :: Mux where
  "optionsRoute =
     New\<lparr>root := RouteTree [] []
        [RouteTree ''one'' [(''OPTIONS'', emptyHandler)] [] [] False None]
        [] False None\<rparr>"

definition noPatterns :: "string \<Rightarrow> regexp option" where
  "noPatterns text = None"

definition twoWildcards :: Mux where
  "twoWildcards =
     New\<lparr>root := RouteTree [] []
        [RouteTree ''a'' [(''GET'', emptyHandler), (''HEAD'', emptyHandler)] [] [] True None,
         RouteTree ''b'' [(''GET'', emptyHandler), (''HEAD'', emptyHandler)] [] [] True None]
        [] False None\<rparr>"

definition loggedRoute :: Mux where
  "loggedRoute =
     New\<lparr>root := RouteTree [] []
        [RouteTree [] [(''GET'', createMiddleware ''1'' (createMiddleware ''2'' emptyHandler)),
                       (''HEAD'', createMiddleware ''1'' (createMiddleware ''2'' emptyHandler))]
           [] [] False None]
        [] False None,
       middlewares := [createMiddleware ''1'', createMiddleware ''2'']\<rparr>"

text \<open>A handler that writes a text to the body, as the custom handlers of the test suite
  do.\<close>

definition writeText :: "string \<Rightarrow> Handler" where
  "writeText text r w = w\<lparr>Body := Body w @ text\<rparr>"

definition paramThenRoot :: Mux where
  "paramThenRoot =
     New\<lparr>root := RouteTree [] []
        [RouteTree [] [(''GET'', writeText ''param''), (''HEAD'', writeText ''param'')] [] ''id''
           False None,
         RouteTree [] [(''GET'', writeText ''root''), (''HEAD'', writeText ''root'')] [] []
           False None]
        [] False None\<rparr>"

definition paramThenLiteral :: Mux where
  "paramThenLiteral =
     New\<lparr>root := RouteTree [] []
        [RouteTree [] [(''GET'', writeText ''param''), (''HEAD'', writeText ''param'')] [] ''id''
           False None,
         RouteTree ''one'' [(''GET'', writeText ''literal''), (''HEAD'', writeText ''literal'')] [] []
           False None]
        [] False None\<rparr>"

definition nestedWildcards :: Mux where
  "nestedWildcards =
     New\<lparr>root := RouteTree [] [(''GET'', emptyHandler), (''HEAD'', emptyHandler)]
        [RouteTree ''prefix'' [(''GET'', emptyHandler), (''HEAD'', emptyHandler)] [] [] True None]
        [] True None\<rparr>"

definition prefixWildcardGet :: "Handler routeTree" where
  "prefixWildcardGet =
     RouteTree [] [] [RouteTree ''prefix'' [(''GET'', emptyHandler)] [] [] True None] [] False None"

definition prefixWildcard :: Mux where
  "prefixWildcard =
     New\<lparr>root := RouteTree [] []
        [RouteTree ''prefix'' [(''GET'', emptyHandler), (''HEAD'', emptyHandler)] [] [] True None]
        [] False None\<rparr>"

text \<open>
  The patterns of the test suite and of the specification, compiled by hand:
  \<^verbatim>\<open>[0-9]{2}\<close>, \<^verbatim>\<open>^[0-9]{2}$\<close> and \<^verbatim>\<open>^[a-z].+$\<close>; \<open>testPatterns\<close> is \<^verbatim>\<open>regexp.MustCompile\<close> on
  these three texts.
\<close>

definition digit :: regexp where
  "digit = CharRange (CHR ''0'') (CHR ''9'')"

definition twoDigits :: regexp where
  "twoDigits = Concat digit digit"

definition twoDigitsAnchored :: regexp where
  "twoDigitsAnchored = Concat BeginText (Concat twoDigits EndText)"

definition lowerThenAny :: regexp where
  "lowerThenAny =
     Concat BeginText
       (Concat (CharRange (CHR ''a'') (CHR ''z'')) (Concat (Concat AnyChar (Star AnyChar)) EndText))"

definition testPatterns :: "string \<Rightarrow> regexp option" where
  "testPatterns text =
     (if text = ''[0-9]{2}'' then Some twoDigits
      else if text = ''^[0-9]{2}$'' then Some twoDigitsAnchored
      else if text = ''^[a-z].+$'' then Some lowerThenAny
      else None)"

definition constrainedOnce :: Mux where
  "constrainedOnce =
     New\<lparr>root := RouteTree [] []
        [RouteTree ''path'' []
           [RouteTree [] [(''GET'', emptyHandler), (''HEAD'', emptyHandler)] [] ''n'' False
              (Some twoDigitsAnchored)]
           [] False None]
        [] False None,
       rxCache := [(''^[0-9]{2}$'', twoDigitsAnchored)]\<rparr>"

definition constrainedTwice :: Mux where
  "constrainedTwice =
     New\<lparr>root := RouteTree [] []
        [RouteTree ''path'' []
           [RouteTree [] [(''GET'', emptyHandler), (''HEAD'', emptyHandler), (''POST'', emptyHandler)]
              [] ''n'' False (Some twoDigits)]
           [] False None]
        [] False None,
       rxCache := [(''^[0-9]{2}$'', twoDigitsAnchored), (''[0-9]{2}'', twoDigits)]\<rparr>"

definition constrainedUnanchored :: "Handler routeTree" where
  "constrainedUnanchored =
     RouteTree [] [(''GET'', emptyHandler)] [] ''n'' False (Some twoDigits)"

definition constrainedAnchored :: "Handler routeTree" where
  "constrainedAnchored =
     RouteTree [] [(''GET'', emptyHandler)] [] ''n'' False (Some twoDigitsAnchored)"

definition constrainedRoot :: Mux where
  "constrainedRoot =
     New\<lparr>root := RouteTree [] []
        [RouteTree [] [(''GET'', writeText ''n''), (''HEAD'', writeText ''n'')] [] ''n'' False
           (Some twoDigitsAnchored)]
        [] False None,
       rxCache := [(''^[0-9]{2}$'', twoDigitsAnchored)]\<rparr>"

section \<open>Evaluation of concrete routers\<close>

lemmas string_defs = Trim_def HasPrefix_def TrimPrefix_def Cut_def ToUpper_def upperChar_def
lemmas insert_defs = selectChild_def findOrCreateChild_def LoadOrStore_def bindHandler_def
lemmas router_defs = Handle_def New_def AllMethods_def MethodGet_def MethodHead_def
  MethodOptions_def MethodPost_def MethodPut_def MethodPatch_def MethodDelete_def
  MethodConnect_def MethodTrace_def wrap_def Use_def emptyHandler_def emptyWriter_def request_def
lemmas serve_defs = ServeHTTP_def allowedLookup_def makeAllowedMethodsMap_def stringMapKeys_def
  constraintRejects_def MatchString_def

section \<open>The decorator chain\<close>

lemma wrapFrom_foldr: "n \<le> length mws \<Longrightarrow> wrapFrom mws n h = foldr (\<lambda>d k. d k) (take n mws) h"
proof (induction n arbitrary: h)
  case 0
  then show ?case by simp
next
  case (Suc n)
  then have "take (Suc n) mws = take n mws @ [mws ! n]"
    by (simp add: take_Suc_conv_app_nth)
  with Suc show ?case by simp
qed

lemma wrap_foldr: "wrap m h = foldr (\<lambda>d k. d k) (middlewares m) h"
  by (simp add: wrap_def wrapFrom_foldr)

lemma middlewares_Use_fold:
  "middlewares (fold (\<lambda>mw m. Use m mw) batches m) = middlewares m @ concat batches"
  by (induction batches arbitrary: m) (simp_all add: Use_def)

lemma foldr_createMiddleware:
  "foldr (\<lambda>d k. d k) (map createMiddleware ids) h r w = h r (w\<lparr>Body := Body w @ concat ids\<rparr>)"
  by (induction ids arbitrary: w) (simp_all add: createMiddleware_def)

lemma tree_Use_fold:
  "root (fold (\<lambda>mw m. Use m mw) batches m) = root m"
  "rxCache (fold (\<lambda>mw m. Use m mw) batches m) = rxCache m"
  by (induction batches arbitrary: m) (simp_all add: Use_def)

lemma concat_singletons: "concat (map (\<lambda>i. [f i]) ids) = map f ids"
  by (induction ids) simp_all

text \<open>
  C8. After the calls \<^verbatim>\<open>Use(batch1)\<close>, ..., \<^verbatim>\<open>Use(batchk)\<close> on a router, \<open>wrap\<close> applied to
  a handler \<open>h\<close> is \<open>d1 (d2 (... (dn h)))\<close>, where \<open>d1, ..., dn\<close> are the router's
  middlewares followed by those of the batches in the order of registration: the first
  registered is outermost. When the registered middlewares are the logging ones of the
  test suite, a request runs them in the order of registration, and then the handler;
  so does a request dispatched to a handler that \<open>Handle\<close> registered after them.
\<close>

theorem wrap_registration_order:
  "wrap (fold (\<lambda>mw m. Use m mw) batches m) h =
     foldr (\<lambda>d k. d k) (middlewares m @ concat batches) h \<and>
   wrap (fold (\<lambda>mw m. Use m mw) (map (\<lambda>i. [createMiddleware i]) ids) New) h r w =
     h r (w\<lparr>Body := Body w @ concat ids\<rparr>) \<and>
   (\<exists>m'. Handle compile (fold (\<lambda>mw m. Use m mw) (map (\<lambda>i. [createMiddleware i]) ids) New)
            ''/one'' h [''GET''] = Inr m' \<and>
         ServeHTTP order m' (request ''GET'' ''/one'') w =
           Inr (h (request ''GET'' ''/one'') (w\<lparr>Body := Body w @ concat ids\<rparr>)))"
proof (intro conjI)
  show "wrap (fold (\<lambda>mw m. Use m mw) batches m) h =
          foldr (\<lambda>d k. d k) (middlewares m @ concat batches) h"
    by (simp only: wrap_foldr middlewares_Use_fold)
next
  have "middlewares New = []"
    by (simp add: New_def)
  then show
    "wrap (fold (\<lambda>mw m. Use m mw) (map (\<lambda>i. [createMiddleware i]) ids) New) h r w =
       h r (w\<lparr>Body := Body w @ concat ids\<rparr>)"
    by (simp add: wrap_foldr middlewares_Use_fold foldr_createMiddleware concat_singletons)
next
  let ?m = "fold (\<lambda>mw m. Use m mw) (map (\<lambda>i. [createMiddleware i]) ids) New"
  let ?wh = "wrap ?m h"
  let ?m' = "?m\<lparr>root := RouteTree [] []
                [RouteTree ''one'' [(''GET'', ?wh), (''HEAD'', ?wh)] [] [] False None] [] False None,
              rxCache := []\<rparr>"
  have t: "root ?m = RouteTree [] [] [] [] False None" "rxCache ?m = []"
    by (simp_all add: tree_Use_fold New_def)
  have reg: "Handle compile ?m ''/one'' h [''GET''] = Inr ?m'"
    by (simp add: Handle_def t Trim_def ToUpper_def upperChar_def HasPrefix_def insert_defs
        MethodGet_def MethodHead_def)
  have wh: "?wh r' w = h r' (w\<lparr>Body := Body w @ concat ids\<rparr>)" for r'
    by (simp add: wrap_foldr middlewares_Use_fold foldr_createMiddleware concat_singletons New_def)
  have "ServeHTTP order ?m' (request ''GET'' ''/one'') w =
      Inr (?wh (request ''GET'' ''/one'') w)"
    by (simp add: ServeHTTP_def request_def Trim_def allowedLookup_def makeAllowedMethodsMap_def)
  with reg wh show "\<exists>m'. Handle compile ?m ''/one'' h [''GET''] = Inr m' \<and>
         ServeHTTP order m' (request ''GET'' ''/one'') w =
           Inr (h (request ''GET'' ''/one'') (w\<lparr>Body := Body w @ concat ids\<rparr>))"
    by simp
qed


section \<open>Insertion keeps the tree well formed\<close>

lemma childIndex_Some:
  "childIndex cs s p = Some i \<Longrightarrow> i < length cs \<and> nodeKey (cs ! i) = (s, p) \<and> (\<forall>j<i. nodeKey (cs ! j) \<noteq> (s, p))"
proof (induction cs arbitrary: i)
  case Nil
  then show ?case by simp
next
  case (Cons c cs)
  show ?case
  proof (cases "segment c = s \<and> paramName c = p")
    case True
    with Cons.prems show ?thesis by (simp add: nodeKey_def)
  next
    case False
    with Cons.prems obtain k where k: "childIndex cs s p = Some k" "i = Suc k"
      by auto
    from Cons.IH [OF k(1)] False k(2) show ?thesis
      by (auto simp: nodeKey_def less_Suc_eq_0_disj)
  qed
qed

lemma childIndex_None: "childIndex cs s p = None \<longleftrightarrow> (s, p) \<notin> set (map nodeKey cs)"
  by (induction cs) (auto simp: nodeKey_def)

lemma childIndex_append:
  "childIndex (cs @ ds) s p =
     (case childIndex cs s p of Some i \<Rightarrow> Some i
      | None \<Rightarrow> map_option (\<lambda>i. length cs + i) (childIndex ds s p))"
proof (induction cs)
  case Nil
  show ?case by (cases "childIndex ds s p") simp_all
next
  case (Cons c cs)
  then show ?case
    by (cases "childIndex cs s p"; cases "childIndex ds s p") auto
qed

lemma childIndex_keys:
  "map nodeKey cs = map nodeKey ds \<Longrightarrow> childIndex cs s p = childIndex ds s p"
proof (induction cs arbitrary: ds)
  case Nil
  then show ?case by simp
next
  case (Cons c cs)
  then obtain d ds' where "ds = d # ds'" by (cases ds) auto
  with Cons show ?case by (auto simp: nodeKey_def)
qed

lemma nodeKey_setters [simp]:
  "nodeKey (setHandlers hs t) = nodeKey t"
  "nodeKey (setChildren cs t) = nodeKey t"
  "nodeKey (setIsWildcard w t) = nodeKey t"
  "nodeKey (setRxPattern rx t) = nodeKey t"
  "nodeKey (bindHandler m h t) = nodeKey t"
  by (cases t; simp add: nodeKey_def bindHandler_def)+

lemma children_setters [simp]:
  "children (setHandlers hs t) = children t"
  "children (setChildren cs t) = cs"
  "children (setIsWildcard w t) = children t"
  "children (setRxPattern rx t) = children t"
  "children (bindHandler m h t) = children t"
  by (cases t; simp add: bindHandler_def)+

lemma findOrCreateChild_cases:
  assumes "findOrCreateChild t s p = (t1, i)"
  obtains cs0 where "t1 = setChildren cs0 t" "i < length cs0" "childIndex cs0 s p = Some i"
    "cs0 = children t \<or>
     (childIndex (children t) s p = None \<and> cs0 = children t @ [RouteTree s [] [] p False None])"
proof (cases "childIndex (children t) s p")
  case None
  with assms have "t1 = setChildren (children t @ [RouteTree s [] [] p False None]) t"
    "i = length (children t)"
    by (auto simp: findOrCreateChild_def)
  with None show ?thesis
    by (intro that [of "children t @ [RouteTree s [] [] p False None]"])
       (auto simp: childIndex_append)
next
  case (Some j)
  with assms have "t1 = t" "i = j"
    by (auto simp: findOrCreateChild_def)
  with Some childIndex_Some [OF Some] show ?thesis
    by (intro that [of "children t"]) (cases t, auto)
qed

lemma selectChild_cases:
  assumes "selectChild compile cache t seg = Inr (cache1, t1, i)"
  obtains cs0 c where "t1 = setChildren (cs0[i := c]) t" "i < length cs0"
    "childIndex cs0 (fst (segmentKey seg)) (snd (segmentKey seg)) = Some i"
    "cs0 = children t \<or>
     (childIndex (children t) (fst (segmentKey seg)) (snd (segmentKey seg)) = None \<and>
      cs0 = children t @
        [RouteTree (fst (segmentKey seg)) [] [] (snd (segmentKey seg)) False None])"
    "(segmentConstraint seg = None \<and> c = cs0 ! i \<and> cache1 = cache) \<or>
     (\<exists>pat compiled. segmentConstraint seg = Some pat \<and> compile pat = Some compiled \<and>
        c = setRxPattern (Some (fst (LoadOrStore cache pat compiled))) (cs0 ! i) \<and>
        cache1 = snd (LoadOrStore cache pat compiled))"
proof (cases "HasPrefix seg '':''")
  case False
  with assms obtain "findOrCreateChild t seg [] = (t1, i)" "cache1 = cache"
    by (auto simp: selectChild_def split: prod.splits)
  then show ?thesis
  proof (cases rule: findOrCreateChild_cases)
    case (1 cs0)
    with False \<open>cache1 = cache\<close> show ?thesis
      by (intro that [of cs0 "cs0 ! i"]) (auto simp: segmentKey_def segmentConstraint_def)
  qed
next
  case True
  obtain pname rxText hasRx where cut: "Cut (TrimPrefix seg '':'') (CHR ''|'') = (pname, rxText, hasRx)"
    by (cases "Cut (TrimPrefix seg '':'') (CHR ''|'')") auto
  obtain t0 j where foc: "findOrCreateChild t [] pname = (t0, j)"
    by (cases "findOrCreateChild t [] pname") auto
  from True cut have key: "segmentKey seg = ([], pname)"
    "segmentConstraint seg = (if hasRx then Some rxText else None)"
    by (simp_all add: segmentKey_def segmentConstraint_def)
  have sel: "selectChild compile cache t seg =
      (if hasRx then
         (case compile rxText of
            None \<Rightarrow> Inl (RegexpCompilePanic rxText)
          | Some compiled \<Rightarrow>
              Inr (snd (LoadOrStore cache rxText compiled),
                   setChildren
                     ((children t0)
                        [j := setRxPattern (Some (fst (LoadOrStore cache rxText compiled)))
                                (children t0 ! j)])
                     t0,
                   j))
       else Inr (cache, t0, j))"
    by (simp add: selectChild_def True cut foc split: option.splits prod.splits)
  from foc show ?thesis
  proof (cases rule: findOrCreateChild_cases)
    case (1 cs0)
    then have t0: "children t0 = cs0" "setChildren ds t0 = setChildren ds t" for ds
      by (cases t; simp)+
    show ?thesis
    proof (cases hasRx)
      case False
      with assms sel have eq: "t1 = t0" "i = j" "cache1 = cache"
        by auto
      have "cs0[j := cs0 ! j] = cs0"
        by simp
      with eq 1 have "t1 = setChildren (cs0[i := cs0 ! i]) t"
        by simp
      with 1 key eq False show ?thesis
        by (intro that [of cs0 "cs0 ! i"]) simp_all
    next
      case hr: True
      with assms sel obtain compiled where c: "compile rxText = Some compiled"
        by (cases "compile rxText") simp_all
      let ?re = "fst (LoadOrStore cache rxText compiled)"
      from assms sel hr c have eq:
        "t1 = setChildren ((children t0)[j := setRxPattern (Some ?re) (children t0 ! j)]) t0"
        "i = j" "cache1 = snd (LoadOrStore cache rxText compiled)"
        by auto
      then have "t1 = setChildren (cs0[i := setRxPattern (Some ?re) (cs0 ! i)]) t"
        by (simp add: t0)
      with 1 key eq hr c show ?thesis
        by (intro that [of cs0 "setRxPattern (Some ?re) (cs0 ! i)"]) auto
    qed
  qed
qed

lemma addRoute_Cons_cases:
  assumes "addRoute compile cache t (seg # rest) method h = Inr (cache', t')" "seg \<noteq> ''...''"
  obtains cache1 t1 i c1 where
    "selectChild compile cache t seg = Inr (cache1, t1, i)"
    "addRoute compile cache1
       (if rest = [] then bindHandler method h (children t1 ! i) else children t1 ! i)
       rest method h = Inr (cache', c1)"
    "t' = setChildren ((children t1)[i := c1]) t1"
proof (cases "selectChild compile cache t seg")
  case (Inl e)
  with assms show ?thesis by simp
next
  case (Inr x)
  then obtain cache1 t1 i where sel: "selectChild compile cache t seg = Inr (cache1, t1, i)"
    by (cases x) auto
  let ?child = "if rest = [] then bindHandler method h (children t1 ! i) else children t1 ! i"
  show ?thesis
  proof (cases "addRoute compile cache1 ?child rest method h")
    case (Inl e)
    with assms sel show ?thesis by (simp add: Let_def)
  next
    case (Inr y)
    then obtain c1 where rec: "addRoute compile cache1 ?child rest method h = Inr (cache', c1)"
      "t' = setChildren ((children t1)[i := c1]) t1"
      using assms sel by (cases y) (auto simp: Let_def)
    with sel show ?thesis by (rule that)
  qed
qed


lemma wellFormed_sel:
  "wellFormed t \<longleftrightarrow>
     (segment t = [] \<or> paramName t = []) \<and> (isWildcard t \<longrightarrow> handlers t \<noteq> []) \<and>
     distinct (map fst (handlers t)) \<and> distinct (map nodeKey (children t)) \<and>
     (\<forall>c\<in>set (children t). wellFormed c)"
  by (cases t) simp

lemma fields_setChildren [simp]:
  "segment (setChildren cs t) = segment t"
  "paramName (setChildren cs t) = paramName t"
  "handlers (setChildren cs t) = handlers t"
  "isWildcard (setChildren cs t) = isWildcard t"
  "rxPattern (setChildren cs t) = rxPattern t"
  by (cases t; simp)+

lemma fields_setRxPattern [simp]:
  "segment (setRxPattern rx t) = segment t"
  "paramName (setRxPattern rx t) = paramName t"
  "handlers (setRxPattern rx t) = handlers t"
  "isWildcard (setRxPattern rx t) = isWildcard t"
  "rxPattern (setRxPattern rx t) = rx"
  by (cases t; simp)+

lemma fields_setIsWildcard [simp]:
  "segment (setIsWildcard w t) = segment t"
  "paramName (setIsWildcard w t) = paramName t"
  "handlers (setIsWildcard w t) = handlers t"
  "isWildcard (setIsWildcard w t) = w"
  "rxPattern (setIsWildcard w t) = rxPattern t"
  by (cases t; simp)+

lemma fields_bindHandler [simp]:
  "segment (bindHandler m h t) = segment t"
  "paramName (bindHandler m h t) = paramName t"
  "handlers (bindHandler m h t) = mapStore m h (handlers t)"
  "isWildcard (bindHandler m h t) = isWildcard t"
  "rxPattern (bindHandler m h t) = rxPattern t"
  by (cases t; simp add: bindHandler_def)+

lemma mapStore_nonempty [simp]: "mapStore k v m \<noteq> []"
  by (cases m) (auto split: if_splits)

lemma map_of_mapStore: "map_of (mapStore k v m) = (map_of m)(k \<mapsto> v)"
  by (induction m) (auto simp: fun_eq_iff)

lemma keys_mapStore: "set (map fst (mapStore k v m)) = insert k (set (map fst m))"
proof (induction m)
  case Nil
  then show ?case by simp
next
  case (Cons a m)
  obtain k' v' where a: "a = (k', v')" by (cases a)
  show ?case
  proof (cases "k' = k")
    case True
    with a show ?thesis by auto
  next
    case False
    with a Cons show ?thesis by auto
  qed
qed

lemma distinct_mapStore: "distinct (map fst m) \<Longrightarrow> distinct (map fst (mapStore k v m))"
proof (induction m)
  case Nil
  then show ?case by simp
next
  case (Cons a m)
  have "set (map fst (mapStore k v m)) = insert k (set (map fst m))"
    by (rule keys_mapStore)
  with Cons show ?case by (cases a) auto
qed

lemma wellFormed_setRxPattern [simp]: "wellFormed (setRxPattern rx t) = wellFormed t"
  by (cases t) simp

lemma wellFormed_bindHandler: "wellFormed t \<Longrightarrow> wellFormed (bindHandler m h t)"
  by (cases t) (simp add: bindHandler_def distinct_mapStore)

lemma wellFormed_wildcard: "wellFormed t \<Longrightarrow> wellFormed (bindHandler m h (setIsWildcard True t))"
  by (cases t) (simp add: bindHandler_def distinct_mapStore)

lemma segmentKey_literal_or_param: "fst (segmentKey seg) = [] \<or> snd (segmentKey seg) = []"
  by (simp add: segmentKey_def)

lemma nodeKey_addRoute:
  "addRoute compile cache t segs method h = Inr (cache', t') \<Longrightarrow> nodeKey t' = nodeKey t"
proof (cases segs)
  case Nil
  then show "addRoute compile cache t segs method h = Inr (cache', t') \<Longrightarrow> nodeKey t' = nodeKey t"
    by simp
next
  case (Cons seg rest)
  assume a: "addRoute compile cache t segs method h = Inr (cache', t')"
  show "nodeKey t' = nodeKey t"
  proof (cases "seg = ''...''")
    case True
    with a Cons show ?thesis by auto
  next
    case False
    from a [unfolded Cons] False show ?thesis
    proof (cases rule: addRoute_Cons_cases)
      case (1 cache1 t1 i c1)
      from 1(1) show ?thesis
      proof (cases rule: selectChild_cases)
        case (1 cs0 c)
        with \<open>t' = setChildren ((children t1)[i := c1]) t1\<close> show ?thesis by simp
      qed
    qed
  qed
qed

lemma wellFormed_addRoute:
  "wellFormed t \<Longrightarrow> addRoute compile cache t segs method h = Inr (cache', t') \<Longrightarrow> wellFormed t'"
proof (induction segs arbitrary: t cache t')
  case Nil
  then show ?case by simp
next
  case (Cons seg rest)
  show ?case
  proof (cases "seg = ''...''")
    case True
    with Cons.prems show ?thesis by (auto simp: wellFormed_wildcard)
  next
    case False
    from Cons.prems(2) False show ?thesis
    proof (cases rule: addRoute_Cons_cases)
      case step: (1 cache1 t1 i c1)
      from step(1) show ?thesis
      proof (cases rule: selectChild_cases)
        case sel: (1 cs0 c)
        let ?k = "segmentKey seg"
        let ?fresh = "RouteTree (fst ?k) [] [] (snd ?k) False None :: 'a routeTree"
        have t1: "children t1 = cs0[i := c]"
          using sel(1) by simp
        have t': "t' = setChildren (cs0[i := c1]) t"
          using step(3) sel(1) by (cases t) simp
        have wf_fresh: "wellFormed ?fresh"
          using segmentKey_literal_or_param [of seg] by simp
        have wf_cs0: "\<forall>d\<in>set cs0. wellFormed d"
          using sel(4) Cons.prems(1) wf_fresh by (auto simp: wellFormed_sel [of t])
        have dist_cs0: "distinct (map nodeKey cs0)"
          using sel(4) Cons.prems(1)
          by (auto simp: wellFormed_sel [of t] childIndex_None nodeKey_def)
        have wf_c: "wellFormed c"
          using sel(5) sel(2) wf_cs0 by auto
        have key_c: "nodeKey c = nodeKey (cs0 ! i)"
          using sel(5) by auto
        let ?child = "if rest = [] then bindHandler method h (children t1 ! i) else children t1 ! i"
        have child: "children t1 ! i = c"
          using t1 sel(2) by simp
        have "wellFormed ?child"
          using wf_c child by (simp add: wellFormed_bindHandler)
        from Cons.IH [OF this step(2)] have wf_c1: "wellFormed c1" .
        have "nodeKey c1 = nodeKey ?child"
          using step(2) by (rule nodeKey_addRoute)
        with child key_c have key_c1: "nodeKey c1 = nodeKey (cs0 ! i)"
          by (simp split: if_splits)
        have keys: "map nodeKey (cs0[i := c1]) = map nodeKey cs0"
          using key_c1 sel(2) by (simp add: map_update list_update_same_conv)
        have "\<forall>d\<in>set (cs0[i := c1]). wellFormed d"
          using wf_cs0 wf_c1 by (auto dest: set_update_subset_insert [THEN subsetD])
        with keys dist_cs0 Cons.prems(1) show ?thesis
          unfolding t' by (simp add: wellFormed_sel [of "setChildren _ _"] wellFormed_sel [of t])
      qed
    qed
  qed
qed

lemma reachableTree_wellFormed: "reachableTree compile t \<Longrightarrow> wellFormed t"
  by (induction rule: reachableTree.induct) (auto intro: wellFormed_addRoute)

section \<open>What the matcher returns, and the cases of serving\<close>

lemma firstMatch_Some: "firstMatch f xs = Some r \<Longrightarrow> \<exists>x\<in>set xs. f x = Some r"
  by (induction xs) (auto split: option.splits)

lemma findHandler_result:
  "wellFormed t \<Longrightarrow> findHandler t segs ps = Some (hs, ps', al) \<Longrightarrow>
     al = makeAllowedMethodsMap hs \<and> hs \<noteq> [] \<and> distinct (map fst hs)"
proof (induction t segs ps rule: findHandler.induct)
  case (1 s hs0 cs p w rx ps)
  then show ?case by (auto split: if_splits)
next
  case (2 s hs0 cs p w rx seg remaining ps)
  show ?case
  proof (cases w)
    case True
    with "2.prems" show ?thesis by auto
  next
    case False
    let ?exact = "\<lambda>child. if segment child = seg then findHandler child remaining ps else None"
    let ?param = "\<lambda>child.
        if paramName child \<noteq> [] then
          (if constraintRejects child seg then None
           else findHandler child remaining (ps(paramName child \<mapsto> seg)))
        else None"
    show ?thesis
    proof (cases "firstMatch ?exact cs")
      case (Some r)
      with False "2.prems"(2) have "firstMatch ?exact cs = Some (hs, ps', al)"
        by simp
      then obtain c where c: "c \<in> set cs" "?exact c = Some (hs, ps', al)"
        by (blast dest: firstMatch_Some)
      then have "segment c = seg" "findHandler c remaining ps = Some (hs, ps', al)"
        by (auto split: if_splits)
      moreover from c(1) "2.prems"(1) have "wellFormed c" by simp
      ultimately show ?thesis
        using "2.IH"(1) [OF False c(1)] by blast
    next
      case None
      with False "2.prems"(2) have "firstMatch ?param cs = Some (hs, ps', al)"
        by simp
      then obtain c where c: "c \<in> set cs" "?param c = Some (hs, ps', al)"
        by (blast dest: firstMatch_Some)
      then have *: "paramName c \<noteq> []" "\<not> constraintRejects c seg"
        "findHandler c remaining (ps(paramName c \<mapsto> seg)) = Some (hs, ps', al)"
        by (auto split: if_splits)
      moreover from c(1) "2.prems"(1) have "wellFormed c" by simp
      ultimately show ?thesis
        using "2.IH"(2) [OF False None c(1)] by blast
    qed
  qed
qed

lemma allowedLookup_makeAllowed:
  "allowedLookup (makeAllowedMethodsMap hs) method \<longleftrightarrow> map_of hs method \<noteq> None"
proof -
  have "map_of (map (\<lambda>(k, h). (k, True)) hs) method = map_option (\<lambda>h. True) (map_of hs method)"
    by (induction hs) auto
  then show ?thesis
    by (cases "map_of hs method") (simp_all add: allowedLookup_def makeAllowedMethodsMap_def)
qed

lemma keys_makeAllowed: "map fst (makeAllowedMethodsMap hs) = map fst hs"
  by (induction hs) (auto simp: makeAllowedMethodsMap_def)

lemma ServeHTTP_cases:
  assumes "wellFormed (root m)"
  shows "case findHandler (root m) (Split (Trim (EscapedPath r) ''/'') (CHR ''/'')) Map.empty of
           None \<Rightarrow> ServeHTTP order m r w = Inr (wrap m (NotFound m) r w)
         | Some (hs, ps, al) \<Rightarrow>
             hs \<noteq> [] \<and> distinct (map fst hs) \<and> al = makeAllowedMethodsMap hs \<and>
             (case map_of hs (Method r) of
                Some h \<Rightarrow> ServeHTTP order m r w = Inr (h (r\<lparr>Context := Context r ++ ps\<rparr>) w)
              | None \<Rightarrow>
                  ServeHTTP order m r w =
                    Inr (wrap m (if Method r = MethodOptions then Options m else MethodNotAllowed m) r
                          (w\<lparr>Header := (Header w)(''Allow'' \<mapsto>
                               Join (order (map fst hs) @ [MethodOptions]) '', '')\<rparr>)))"
proof (cases "findHandler (root m) (Split (Trim (EscapedPath r) ''/'') (CHR ''/'')) Map.empty")
  case None
  then show ?thesis by (simp add: ServeHTTP_def)
next
  case (Some res)
  obtain hs ps al where res: "res = (hs, ps, al)" by (cases res)
  from findHandler_result [OF assms Some [unfolded res]]
  have al: "al = makeAllowedMethodsMap hs" and ne: "hs \<noteq> []" and d: "distinct (map fst hs)"
    by simp_all
  have ne': "makeAllowedMethodsMap hs \<noteq> []"
    using ne by (simp add: makeAllowedMethodsMap_def)
  show ?thesis
  proof (cases "map_of hs (Method r)")
    case None
    then have "\<not> allowedLookup al (Method r)"
      by (simp add: al allowedLookup_makeAllowed)
    with Some res None al ne ne' d show ?thesis
      by (simp add: ServeHTTP_def stringMapKeys_def keys_makeAllowed)
  next
    case (Some h)
    then have "allowedLookup al (Method r)"
      by (simp add: al allowedLookup_makeAllowed)
    with \<open>findHandler _ _ _ = Some res\<close> res Some al ne d show ?thesis
      by (simp add: ServeHTTP_def)
  qed
qed

section \<open>Reachable trees and the example routers\<close>

lemma reachableTree_New: "reachableTree compile (root New)"
  by (simp add: New_def reachableTree.empty)

lemma reachableTree_addRoutes:
  "reachableTree compile t \<Longrightarrow> addRoutes compile cache t segs ms h = Inr (cache', t') \<Longrightarrow>
     reachableTree compile t'"
proof (induction ms arbitrary: cache t)
  case Nil
  then show ?case by simp
next
  case (Cons mth ms)
  from Cons.prems(2) obtain cache1 t1 where
    1: "addRoute compile cache t segs (ToUpper mth) h = Inr (cache1, t1)" and
    2: "addRoutes compile cache1 t1 segs ms h = Inr (cache', t')"
    by (auto split: sum.splits)
  from Cons.prems(1) 1 have "reachableTree compile t1"
    by (rule reachableTree.add)
  then show ?case using 2 by (rule Cons.IH)
qed

lemma reachableTree_Handle:
  assumes "reachableTree compile (root m)" "Handle compile m pattern h methods = Inr m'"
  shows "reachableTree compile (root m')"
proof -
  from assms(2) obtain segs ms hw cache' t' where
    "addRoutes compile (rxCache m) (root m) segs ms hw = Inr (cache', t')" "root m' = t'"
    by (auto simp: Handle_def Let_def split: sum.splits)
  with assms(1) show ?thesis
    by (auto intro: reachableTree_addRoutes)
qed

lemma Handle_oneRoute: "Handle noPatterns New ''/one'' emptyHandler [''GET''] = Inr oneRoute"
  by (simp add: oneRoute_def string_defs insert_defs router_defs)

lemma Handle_optionsRoute:
  "Handle noPatterns New ''/one'' emptyHandler [''OPTIONS''] = Inr optionsRoute"
  by (simp add: optionsRoute_def string_defs insert_defs router_defs)

lemma reachable_oneRoute: "reachableTree noPatterns (root oneRoute)"
  using reachableTree_New Handle_oneRoute by (rule reachableTree_Handle)

lemma reachable_optionsRoute: "reachableTree noPatterns (root optionsRoute)"
  using reachableTree_New Handle_optionsRoute by (rule reachableTree_Handle)

lemma Handle_twoWildcards:
  "\<exists>m. Handle noPatterns New ''/a/...'' emptyHandler [''GET''] = Inr m \<and>
       Handle noPatterns m ''/b/...'' emptyHandler [''GET''] = Inr twoWildcards"
  by (simp add: twoWildcards_def string_defs insert_defs router_defs)

lemma reachable_twoWildcards: "reachableTree noPatterns (root twoWildcards)"
  using Handle_twoWildcards reachableTree_New by (blast intro: reachableTree_Handle)

lemma Handle_loggedRoute:
  "Handle noPatterns (Use New [createMiddleware ''1'', createMiddleware ''2'']) ''/'' emptyHandler
     [''GET''] = Inr loggedRoute"
  by (simp add: loggedRoute_def string_defs insert_defs router_defs)

lemma reachable_loggedRoute: "reachableTree noPatterns (root loggedRoute)"
proof -
  have "reachableTree noPatterns (root (Use New [createMiddleware ''1'', createMiddleware ''2'']))"
    using reachableTree_New [of noPatterns] by (simp add: Use_def)
  then show ?thesis using Handle_loggedRoute by (rule reachableTree_Handle)
qed

section \<open>Serving a request\<close>

text \<open>
  C3. On a router whose tree was built by registrations, \<open>ServeHTTP\<close> always returns
  (it never calls a nil handler), and its answer is exactly one of four: when no node
  matches the path, the not-found handler; when a node matches and binds the request's
  method, that handler, with the captured parameters in the request's context; when a
  node matches without binding the method, the preflight handler for \<^verbatim>\<open>OPTIONS\<close> and the
  method-not-allowed handler for every other method, both with the \<^verbatim>\<open>Allow\<close> header set.
  A matched node always has a binding, so the last two cases never answer not-found.
\<close>

theorem ServeHTTP_outcomes:
  assumes "reachableTree compile (root m)"
  shows "case findHandler (root m) (Split (Trim (EscapedPath r) ''/'') (CHR ''/'')) Map.empty of
           None \<Rightarrow> ServeHTTP order m r w = Inr (wrap m (NotFound m) r w)
         | Some (hs, ps, al) \<Rightarrow>
             hs \<noteq> [] \<and>
             (case map_of hs (Method r) of
                Some h \<Rightarrow> ServeHTTP order m r w = Inr (h (r\<lparr>Context := Context r ++ ps\<rparr>) w)
              | None \<Rightarrow>
                  ServeHTTP order m r w =
                    Inr (wrap m (if Method r = MethodOptions then Options m else MethodNotAllowed m) r
                          (w\<lparr>Header := (Header w)(''Allow'' \<mapsto>
                               Join (order (map fst hs) @ [MethodOptions]) '', '')\<rparr>)))"
  using ServeHTTP_cases [OF reachableTree_wellFormed [OF assms], where r = r and order = order and w = w]
  by (auto split: option.splits)

theorem ServeHTTP_outcomes_witness:
  "reachableTree noPatterns (root oneRoute) \<and>
   ServeHTTP id oneRoute (request ''GET'' ''/one'') emptyWriter = Inr emptyWriter \<and>
   ServeHTTP id oneRoute (request ''GET'' ''/two'') emptyWriter =
     Inr (wrap oneRoute (NotFound oneRoute) (request ''GET'' ''/two'') emptyWriter) \<and>
   ServeHTTP id oneRoute (request ''POST'' ''/one'') emptyWriter =
     Inr (wrap oneRoute (MethodNotAllowed oneRoute) (request ''POST'' ''/one'')
            (emptyWriter\<lparr>Header := [''Allow'' \<mapsto> ''GET, HEAD, OPTIONS'']\<rparr>)) \<and>
   ServeHTTP id oneRoute (request ''OPTIONS'' ''/one'') emptyWriter =
     Inr (wrap oneRoute (Options oneRoute) (request ''OPTIONS'' ''/one'')
            (emptyWriter\<lparr>Header := [''Allow'' \<mapsto> ''GET, HEAD, OPTIONS'']\<rparr>))"
proof -
  note r = reachable_oneRoute
  have segs: "Split (Trim ''/one'' ''/'') (CHR ''/'') = [''one'']"
    "Split (Trim ''/two'' ''/'') (CHR ''/'') = [''two'']"
    by (simp_all add: Trim_def)
  have found: "findHandler (root oneRoute) [''one''] Map.empty =
      Some ([(''GET'', emptyHandler), (''HEAD'', emptyHandler)], Map.empty,
            [(''GET'', True), (''HEAD'', True)])"
    "findHandler (root oneRoute) [''two''] Map.empty = None"
    by (simp_all add: oneRoute_def makeAllowedMethodsMap_def)
  have 1: "ServeHTTP id oneRoute (request ''GET'' ''/one'') emptyWriter = Inr emptyWriter"
    using ServeHTTP_outcomes [OF r, where r = "request ''GET'' ''/one''" and order = id
        and w = emptyWriter]
    by (simp add: request_def segs found emptyHandler_def)
  have 2: "ServeHTTP id oneRoute (request ''GET'' ''/two'') emptyWriter =
     Inr (wrap oneRoute (NotFound oneRoute) (request ''GET'' ''/two'') emptyWriter)"
    using ServeHTTP_outcomes [OF r, where r = "request ''GET'' ''/two''" and order = id
        and w = emptyWriter]
    by (simp add: request_def segs found)
  have 3: "ServeHTTP id oneRoute (request ''POST'' ''/one'') emptyWriter =
     Inr (wrap oneRoute (MethodNotAllowed oneRoute) (request ''POST'' ''/one'')
            (emptyWriter\<lparr>Header := [''Allow'' \<mapsto> ''GET, HEAD, OPTIONS'']\<rparr>))"
    using ServeHTTP_outcomes [OF r, where r = "request ''POST'' ''/one''" and order = id
        and w = emptyWriter]
    by (simp add: request_def segs found MethodOptions_def emptyWriter_def)
  have 4: "ServeHTTP id oneRoute (request ''OPTIONS'' ''/one'') emptyWriter =
     Inr (wrap oneRoute (Options oneRoute) (request ''OPTIONS'' ''/one'')
            (emptyWriter\<lparr>Header := [''Allow'' \<mapsto> ''GET, HEAD, OPTIONS'']\<rparr>))"
    using ServeHTTP_outcomes [OF r, where r = "request ''OPTIONS'' ''/one''" and order = id
        and w = emptyWriter]
    by (simp add: request_def segs found MethodOptions_def emptyWriter_def)
  from r 1 2 3 4 show ?thesis by simp
qed

text \<open>
  C6, as stated, fails: when \<^verbatim>\<open>OPTIONS\<close> is bound at the matched node, the bound handler is
  dispatched and the preflight handler does not run. Here \<^verbatim>\<open>/one\<close> is registered for
  \<^verbatim>\<open>OPTIONS\<close> with the empty handler: the response is left untouched, where the preflight
  handler would have set the status 204.
\<close>

theorem preflight_counterexample:
  "Handle noPatterns New ''/one'' emptyHandler [''OPTIONS''] = Inr optionsRoute \<and>
   reachableTree noPatterns (root optionsRoute) \<and>
   findHandler (root optionsRoute) (Split (Trim ''/one'' ''/'') (CHR ''/'')) Map.empty =
     Some ([(''OPTIONS'', emptyHandler)], Map.empty, [(''OPTIONS'', True)]) \<and>
   ServeHTTP id optionsRoute (request ''OPTIONS'' ''/one'') emptyWriter = Inr emptyWriter \<and>
   (\<forall>w'. ServeHTTP id optionsRoute (request ''OPTIONS'' ''/one'') emptyWriter \<noteq>
      Inr (wrap optionsRoute (Options optionsRoute) (request ''OPTIONS'' ''/one'') w'))"
proof -
  have 1: "findHandler (root optionsRoute) (Split (Trim ''/one'' ''/'') (CHR ''/'')) Map.empty =
     Some ([(''OPTIONS'', emptyHandler)], Map.empty, [(''OPTIONS'', True)])"
    by (simp add: optionsRoute_def Trim_def makeAllowedMethodsMap_def)
  have 2: "ServeHTTP id optionsRoute (request ''OPTIONS'' ''/one'') emptyWriter = Inr emptyWriter"
    by (simp add: ServeHTTP_def request_def 1 allowedLookup_def emptyHandler_def)
  have 3: "Status (wrap optionsRoute (Options optionsRoute) r w') = 204" for r w'
    by (simp add: optionsRoute_def New_def wrap_def)
  have "Status emptyWriter = 0"
    by (simp add: emptyWriter_def)
  with 3 have "emptyWriter \<noteq> wrap optionsRoute (Options optionsRoute) r w'" for r w'
    by (metis zero_neq_numeral)
  with Handle_optionsRoute reachable_optionsRoute 1 2 show ?thesis by simp
qed

text \<open>
  C6, amended. For every path that matches a node, an \<^verbatim>\<open>OPTIONS\<close> request is never
  answered by method-not-allowed: when \<^verbatim>\<open>OPTIONS\<close> is bound at the matched node its bound
  handler is dispatched, and otherwise the router's preflight handler answers, with the
  \<^verbatim>\<open>Allow\<close> header set.
\<close>

theorem options_request:
  assumes "reachableTree compile (root m)"
    and "Method r = MethodOptions"
    and "findHandler (root m) (Split (Trim (EscapedPath r) ''/'') (CHR ''/'')) Map.empty =
           Some (hs, ps, al)"
  shows "ServeHTTP order m r w =
           (case map_of hs MethodOptions of
              Some h \<Rightarrow> Inr (h (r\<lparr>Context := Context r ++ ps\<rparr>) w)
            | None \<Rightarrow>
                Inr (wrap m (Options m) r
                       (w\<lparr>Header := (Header w)(''Allow'' \<mapsto>
                            Join (order (map fst hs) @ [MethodOptions]) '', '')\<rparr>)))"
proof -
  note c = ServeHTTP_cases [OF reachableTree_wellFormed [OF assms(1)], where r = r
      and order = order and w = w]
  show ?thesis
  proof (cases "map_of hs MethodOptions")
    case None
    with c assms(2,3) show ?thesis by simp
  next
    case (Some h)
    with c assms(2,3) show ?thesis by simp
  qed
qed

theorem options_request_witness:
  "reachableTree noPatterns (root oneRoute) \<and>
   Method (request ''OPTIONS'' ''/one'') = MethodOptions \<and>
   findHandler (root oneRoute) (Split (Trim (EscapedPath (request ''OPTIONS'' ''/one'')) ''/'') (CHR ''/''))
     Map.empty =
     Some ([(''GET'', emptyHandler), (''HEAD'', emptyHandler)], Map.empty,
           [(''GET'', True), (''HEAD'', True)]) \<and>
   ServeHTTP id oneRoute (request ''OPTIONS'' ''/one'') emptyWriter =
     Inr \<lparr>Header = [''Allow'' \<mapsto> ''GET, HEAD, OPTIONS''], Status = 204, Body = []\<rparr>"
proof -
  have m: "Method (request ''OPTIONS'' ''/one'') = MethodOptions"
    by (simp add: request_def MethodOptions_def)
  have f: "findHandler (root oneRoute)
      (Split (Trim (EscapedPath (request ''OPTIONS'' ''/one'')) ''/'') (CHR ''/'')) Map.empty =
     Some ([(''GET'', emptyHandler), (''HEAD'', emptyHandler)], Map.empty,
           [(''GET'', True), (''HEAD'', True)])"
    by (simp add: request_def oneRoute_def Trim_def makeAllowedMethodsMap_def)
  have "ServeHTTP id oneRoute (request ''OPTIONS'' ''/one'') emptyWriter =
     Inr \<lparr>Header = [''Allow'' \<mapsto> ''GET, HEAD, OPTIONS''], Status = 204, Body = []\<rparr>"
    using options_request [OF reachable_oneRoute m f, of id emptyWriter]
    by (simp add: MethodOptions_def oneRoute_def New_def wrap_def emptyWriter_def)
  with reachable_oneRoute m f show ?thesis by simp
qed

text \<open>
  C7. When the path matches a node that does not bind the request's method, the fallback
  handler receives a response whose \<^verbatim>\<open>Allow\<close> header is the methods bound at the node,
  each once and in the order in which the runtime enumerates the map, followed by
  \<^verbatim>\<open>OPTIONS\<close>, joined by a comma and a space.
\<close>

theorem allow_header:
  assumes "reachableTree compile (root m)"
    and "\<And>xs. mset (order xs) = mset xs"
    and "findHandler (root m) (Split (Trim (EscapedPath r) ''/'') (CHR ''/'')) Map.empty =
           Some (hs, ps, al)"
    and "map_of hs (Method r) = None"
  shows "\<exists>ks. mset ks = mset (map fst hs) \<and> distinct ks \<and>
           ServeHTTP order m r w =
             Inr (wrap m (if Method r = MethodOptions then Options m else MethodNotAllowed m) r
                    (w\<lparr>Header := (Header w)(''Allow'' \<mapsto> Join (ks @ [MethodOptions]) '', '')\<rparr>))"
proof -
  from ServeHTTP_cases [OF reachableTree_wellFormed [OF assms(1)], where r = r and order = order and w = w]
    assms(3,4)
  have d: "distinct (map fst hs)" and
    s: "ServeHTTP order m r w =
          Inr (wrap m (if Method r = MethodOptions then Options m else MethodNotAllowed m) r
                 (w\<lparr>Header := (Header w)(''Allow'' \<mapsto>
                      Join (order (map fst hs) @ [MethodOptions]) '', '')\<rparr>))"
    by auto
  have "mset (order (map fst hs)) = mset (map fst hs)"
    by (rule assms(2))
  moreover from this d have "distinct (order (map fst hs))"
    by (metis mset_eq_imp_distinct_iff)
  ultimately show ?thesis using s by blast
qed

theorem allow_header_witness:
  "(\<forall>xs :: string list. mset (rev xs) = mset xs) \<and>
   reachableTree noPatterns (root oneRoute) \<and>
   findHandler (root oneRoute) (Split (Trim (EscapedPath (request ''POST'' ''/one'')) ''/'') (CHR ''/''))
     Map.empty =
     Some ([(''GET'', emptyHandler), (''HEAD'', emptyHandler)], Map.empty,
           [(''GET'', True), (''HEAD'', True)]) \<and>
   map_of [(''GET'', emptyHandler), (''HEAD'', emptyHandler)] (Method (request ''POST'' ''/one'')) = None \<and>
   (\<exists>ks. mset ks = mset [''GET'', ''HEAD''] \<and> distinct ks \<and>
      ServeHTTP rev oneRoute (request ''POST'' ''/one'') emptyWriter =
        Inr (httpError ''Method Not Allowed'' 405 (request ''POST'' ''/one'')
               (emptyWriter\<lparr>Header := [''Allow'' \<mapsto> Join (ks @ [''OPTIONS'']) '', '']\<rparr>)))"
proof -
  have p: "mset (rev xs) = mset xs" for xs :: "string list"
    by simp
  have f: "findHandler (root oneRoute)
      (Split (Trim (EscapedPath (request ''POST'' ''/one'')) ''/'') (CHR ''/'')) Map.empty =
     Some ([(''GET'', emptyHandler), (''HEAD'', emptyHandler)], Map.empty,
           [(''GET'', True), (''HEAD'', True)])"
    by (simp add: request_def oneRoute_def Trim_def makeAllowedMethodsMap_def)
  have n: "map_of [(''GET'', emptyHandler), (''HEAD'', emptyHandler)]
      (Method (request ''POST'' ''/one'')) = None"
    by (simp add: request_def)
  have "\<exists>ks. mset ks = mset [''GET'', ''HEAD''] \<and> distinct ks \<and>
      ServeHTTP rev oneRoute (request ''POST'' ''/one'') emptyWriter =
        Inr (httpError ''Method Not Allowed'' 405 (request ''POST'' ''/one'')
               (emptyWriter\<lparr>Header := [''Allow'' \<mapsto> Join (ks @ [''OPTIONS'']) '', '']\<rparr>))"
    using allow_header [OF reachable_oneRoute p f n, of emptyWriter]
    by (simp add: MethodOptions_def oneRoute_def New_def wrap_def emptyWriter_def request_def)
  with p reachable_oneRoute f n show ?thesis by simp
qed

text \<open>
  C10. A request that ends in a fallback is answered by the fallback handler wrapped, at
  serving time, in the router's middlewares, the first registered outermost, as \<open>wrap\<close>
  does for a handler that \<open>Handle\<close> registers; with the logging middlewares of the test
  suite the log holds their identifiers in the order of registration before the fallback
  handler runs.
\<close>

theorem fallbacks_wrapped:
  assumes "reachableTree compile (root m)"
    and "found = findHandler (root m) (Split (Trim (EscapedPath r) ''/'') (CHR ''/'')) Map.empty"
    and "case found of None \<Rightarrow> True | Some (hs, ps, al) \<Rightarrow> map_of hs (Method r) = None"
    and "fallback =
           (case found of
              None \<Rightarrow> NotFound m
            | Some res \<Rightarrow> if Method r = MethodOptions then Options m else MethodNotAllowed m)"
    and "w' =
           (case found of
              None \<Rightarrow> w
            | Some (hs, ps, al) \<Rightarrow>
                w\<lparr>Header := (Header w)(''Allow'' \<mapsto>
                     Join (order (map fst hs) @ [MethodOptions]) '', '')\<rparr>)"
  shows "ServeHTTP order m r w = Inr (foldr (\<lambda>d k. d k) (middlewares m) fallback r w') \<and>
         (middlewares m = map createMiddleware ids \<longrightarrow>
            ServeHTTP order m r w = Inr (fallback r (w'\<lparr>Body := Body w' @ concat ids\<rparr>)))"
proof -
  note c = ServeHTTP_cases [OF reachableTree_wellFormed [OF assms(1)], where r = r
      and order = order and w = w]
  have "ServeHTTP order m r w = Inr (wrap m fallback r w')"
  proof (cases found)
    case None
    with c assms(2,4,5) show ?thesis by simp
  next
    case (Some res)
    obtain hs ps al where res: "res = (hs, ps, al)" by (cases res)
    with Some assms(3) have "map_of hs (Method r) = None" by simp
    with c assms(2) [symmetric] Some res assms(4,5) show ?thesis by simp
  qed
  then show ?thesis
    by (simp add: wrap_foldr foldr_createMiddleware)
qed

theorem fallbacks_wrapped_witness:
  "reachableTree noPatterns (root loggedRoute) \<and>
   findHandler (root loggedRoute) (Split (Trim (EscapedPath (request ''GET'' ''/nope'')) ''/'') (CHR ''/''))
     Map.empty = None \<and>
   middlewares loggedRoute = map createMiddleware [''1'', ''2''] \<and>
   ServeHTTP id loggedRoute (request ''GET'' ''/nope'') emptyWriter =
     Inr (NotFound loggedRoute (request ''GET'' ''/nope'') (emptyWriter\<lparr>Body := ''12''\<rparr>)) \<and>
   ServeHTTP id loggedRoute (request ''GET'' ''/'') emptyWriter =
     Inr (emptyHandler (request ''GET'' ''/'') (emptyWriter\<lparr>Body := ''12''\<rparr>))"
proof -
  have f: "findHandler (root loggedRoute)
      (Split (Trim (EscapedPath (request ''GET'' ''/nope'')) ''/'') (CHR ''/'')) Map.empty = None"
    by (simp add: request_def loggedRoute_def Trim_def)
  have mw: "middlewares loggedRoute = map createMiddleware [''1'', ''2'']"
    by (simp add: loggedRoute_def)
  have 1: "ServeHTTP id loggedRoute (request ''GET'' ''/nope'') emptyWriter =
     Inr (NotFound loggedRoute (request ''GET'' ''/nope'') (emptyWriter\<lparr>Body := ''12''\<rparr>))"
    using fallbacks_wrapped [OF reachable_loggedRoute refl _ refl refl,
        where r = "request ''GET'' ''/nope''" and ids = "[''1'', ''2'']" and order = id
        and w = emptyWriter] f mw
    by (simp add: emptyWriter_def createMiddleware_def)
  have 2: "ServeHTTP id loggedRoute (request ''GET'' ''/'') emptyWriter =
     Inr (emptyHandler (request ''GET'' ''/'') (emptyWriter\<lparr>Body := ''12''\<rparr>))"
    by (simp add: ServeHTTP_def request_def loggedRoute_def Trim_def makeAllowedMethodsMap_def
        allowedLookup_def createMiddleware_def emptyHandler_def emptyWriter_def)
  from reachable_loggedRoute f mw 1 2 show ?thesis by simp
qed

section \<open>The children of a node\<close>

lemma subtrees_wellFormed: "wellFormed t \<Longrightarrow> n \<in> set (subtrees t) \<Longrightarrow> wellFormed n"
proof (induction t rule: subtrees.induct)
  case (1 s hs cs p w rx)
  from "1.prems"(2) consider "n = RouteTree s hs cs p w rx" | c where "c \<in> set cs" "n \<in> set (subtrees c)"
    by auto
  then show ?case
  proof cases
    case 1
    with "1.prems"(1) show ?thesis by simp
  next
    case 2
    with "1.prems"(1) "1.IH" show ?thesis by simp
  qed
qed

lemma filter_key_at_most_one:
  "distinct (map f xs) \<Longrightarrow> length (filter (\<lambda>x. P x \<and> f x = k) xs) \<le> 1"
proof (induction xs)
  case Nil
  then show ?case by simp
next
  case (Cons x xs)
  show ?case
  proof (cases "f x = k")
    case True
    with Cons.prems have "\<forall>y\<in>set xs. f y \<noteq> k" by (force simp: image_iff)
    then have "filter (\<lambda>x. P x \<and> f x = k) xs = []"
      by (simp add: filter_empty_conv)
    then show ?thesis by simp
  next
    case False
    with Cons show ?thesis by simp
  qed
qed

text \<open>
  C9, as stated, fails: the wildcard marker sets the flag on the node of the segment before
  it, and nothing bounds the number of flagged children of one node. After registering
  \<^verbatim>\<open>/a/...\<close> and \<^verbatim>\<open>/b/...\<close> the root has two children with the flag set.
\<close>

theorem wildcard_children_counterexample:
  "(\<exists>m. Handle noPatterns New ''/a/...'' emptyHandler [''GET''] = Inr m \<and>
        Handle noPatterns m ''/b/...'' emptyHandler [''GET''] = Inr twoWildcards) \<and>
   reachableTree noPatterns (root twoWildcards) \<and>
   root twoWildcards \<in> set (subtrees (root twoWildcards)) \<and>
   length (filter isWildcard (children (root twoWildcards))) = 2"
proof -
  have "root twoWildcards \<in> set (subtrees (root twoWildcards))"
    "length (filter isWildcard (children (root twoWildcards))) = 2"
    by (simp_all add: twoWildcards_def)
  with Handle_twoWildcards reachable_twoWildcards show ?thesis by simp
qed

text \<open>
  C9, amended. After any sequence of registrations, the children of every node have
  pairwise different pairs of segment and parameter name, so every node has at most one
  child with the wildcard-terminal flag set for each such pair.
\<close>

theorem wildcard_children_per_key:
  assumes "reachableTree compile t" and "n \<in> set (subtrees t)"
  shows "distinct (map nodeKey (children n)) \<and>
         length (filter (\<lambda>c. isWildcard c \<and> nodeKey c = k) (children n)) \<le> 1"
proof -
  from assms have "wellFormed n"
    by (blast intro: subtrees_wellFormed reachableTree_wellFormed)
  then have "distinct (map nodeKey (children n))"
    by (simp add: wellFormed_sel [of n])
  with filter_key_at_most_one [of nodeKey "children n" isWildcard k] show ?thesis
    by simp
qed

theorem wildcard_children_per_key_witness:
  "reachableTree noPatterns (root twoWildcards) \<and>
   root twoWildcards \<in> set (subtrees (root twoWildcards)) \<and>
   distinct (map nodeKey (children (root twoWildcards))) \<and>
   length (filter (\<lambda>c. isWildcard c \<and> nodeKey c = (''a'', [])) (children (root twoWildcards))) \<le> 1"
proof -
  have "root twoWildcards \<in> set (subtrees (root twoWildcards))"
    by (simp add: twoWildcards_def)
  with reachable_twoWildcards wildcard_children_per_key [OF reachable_twoWildcards this]
  show ?thesis by simp
qed

section \<open>Constraints of parameter nodes\<close>

lemma LoadOrStore_consistent:
  assumes "cacheConsistent compile cache" "compile pat = Some compiled"
  shows "fst (LoadOrStore cache pat compiled) = compiled"
    and "cacheConsistent compile (snd (LoadOrStore cache pat compiled))"
proof -
  show "fst (LoadOrStore cache pat compiled) = compiled"
  proof (cases "map_of cache pat")
    case None
    then show ?thesis by (simp add: LoadOrStore_def)
  next
    case (Some actual)
    then have "(pat, actual) \<in> set cache" by (rule map_of_SomeD)
    with assms have "actual = compiled" by (auto simp: cacheConsistent_def)
    with Some show ?thesis by (simp add: LoadOrStore_def)
  qed
  show "cacheConsistent compile (snd (LoadOrStore cache pat compiled))"
    using assms by (cases "map_of cache pat") (auto simp: LoadOrStore_def cacheConsistent_def)
qed

lemma rxPattern_addRoute:
  assumes "addRoute compile cache t segs method h = Inr (cache', t')"
  shows "rxPattern t' = rxPattern t"
proof (cases segs)
  case Nil
  with assms show ?thesis by simp
next
  case (Cons seg rest)
  show ?thesis
  proof (cases "seg = ''...''")
    case True
    with assms Cons show ?thesis by auto
  next
    case False
    from assms [unfolded Cons] False show ?thesis
    proof (cases rule: addRoute_Cons_cases)
      case step: (1 cache1 t1 i c1)
      from step(1) show ?thesis
      proof (cases rule: selectChild_cases)
        case (1 cs0 c)
        with step(3) show ?thesis by simp
      qed
    qed
  qed
qed

lemma nodeAt_children:
  "children a = children b \<Longrightarrow> ks \<noteq> [] \<Longrightarrow> nodeAt a ks = nodeAt b ks"
  by (cases ks) (auto split: option.splits)

lemma nodeAt_leaf: "children a = [] \<Longrightarrow> ks \<noteq> [] \<Longrightarrow> nodeAt a ks = None"
  by (cases ks) simp_all

text \<open>One step of insertion, as seen by \<open>nodeAt\<close>.\<close>

lemma addRoute_step_nodeAt:
  assumes "addRoute compile cache t (seg # rest) method h = Inr (cache', t')" "seg \<noteq> ''...''"
  obtains cache1 i c c1 old where
    "childIndex (children t') (fst (segmentKey seg)) (snd (segmentKey seg)) = Some i"
    "children t' ! i = c1"
    "addRoute compile cache1 (if rest = [] then bindHandler method h c else c) rest method h =
       Inr (cache', c1)"
    "(segmentConstraint seg = None \<and> c = old \<and> cache1 = cache) \<or>
     (\<exists>pat compiled. segmentConstraint seg = Some pat \<and> compile pat = Some compiled \<and>
        c = setRxPattern (Some (fst (LoadOrStore cache pat compiled))) old \<and>
        cache1 = snd (LoadOrStore cache pat compiled))"
    "(childIndex (children t) (fst (segmentKey seg)) (snd (segmentKey seg)) = Some i \<and>
      old = children t ! i) \<or>
     (childIndex (children t) (fst (segmentKey seg)) (snd (segmentKey seg)) = None \<and>
      old = RouteTree (fst (segmentKey seg)) [] [] (snd (segmentKey seg)) False None \<and>
      i = length (children t))"
    "\<And>j. j \<noteq> i \<Longrightarrow> j < length (children t) \<Longrightarrow> children t' ! j = children t ! j"
    "\<And>a b j. childIndex (children t) a b = Some j \<Longrightarrow> childIndex (children t') a b = Some j"
    "handlers t' = handlers t" "isWildcard t' = isWildcard t"
    "length (children t) \<le> length (children t')"
  using assms
proof (cases rule: addRoute_Cons_cases)
  case step: (1 cache1 t1 i c1)
  from step(1) show ?thesis
  proof (cases rule: selectChild_cases)
    case sel: (1 cs0 c)
    let ?k = "segmentKey seg"
    have t': "t' = setChildren (cs0[i := c1]) t"
      using step(3) sel(1) by (cases t) simp
    have child: "children t1 ! i = c"
      using sel(1,2) by simp
    have "nodeKey c1 = nodeKey (if rest = [] then bindHandler method h c else c)"
      using step(2) [unfolded child] by (rule nodeKey_addRoute)
    moreover have "nodeKey c = nodeKey (cs0 ! i)"
      using sel(5) by auto
    ultimately have "nodeKey c1 = nodeKey (cs0 ! i)"
      by (simp split: if_splits)
    then have keys: "map nodeKey (cs0[i := c1]) = map nodeKey cs0"
      using sel(2) by (simp add: map_update list_update_same_conv)
    have 1: "childIndex (children t') (fst ?k) (snd ?k) = Some i"
      using sel(3) childIndex_keys [OF keys] by (simp add: t')
    have 2: "children t' ! i = c1"
      using sel(2) by (simp add: t')
    have old: "(childIndex (children t) (fst ?k) (snd ?k) = Some i \<and> cs0 ! i = children t ! i) \<or>
      (childIndex (children t) (fst ?k) (snd ?k) = None \<and>
       cs0 ! i = RouteTree (fst ?k) [] [] (snd ?k) False None \<and> i = length (children t))"
    proof (cases "cs0 = children t")
      case True
      with sel(3) show ?thesis by simp
    next
      case False
      with sel(4) have n: "childIndex (children t) (fst ?k) (snd ?k) = None"
        and cs0: "cs0 = children t @ [RouteTree (fst ?k) [] [] (snd ?k) False None]"
        by auto
      from sel(3) [unfolded cs0 childIndex_append n] have "i = length (children t)"
        by auto
      with n cs0 show ?thesis by simp
    qed
    have others: "children t' ! j = children t ! j" if "j \<noteq> i" "j < length (children t)" for j
      using that sel(4) by (auto simp: t' nth_append)
    have len: "length (children t) \<le> length (children t')"
      using sel(4) by (auto simp: t')
    have idx: "childIndex (children t') a b = Some j"
      if "childIndex (children t) a b = Some j" for a b j
    proof -
      from sel(4) that have "childIndex cs0 a b = Some j"
        by (auto simp: childIndex_append)
      with childIndex_keys [OF keys] show ?thesis by (simp add: t')
    qed
    show ?thesis
      using 1 2 step(2) [unfolded child] sel(5) old others idx len
      by (intro that [of i c1 cache1 c "cs0 ! i"]) (simp_all add: t')
  qed
qed

lemma HasPrefix_not_wildcard: "HasPrefix seg '':'' \<Longrightarrow> seg \<noteq> ''...''"
  by (auto simp: HasPrefix_def)

lemma Handle_constrainedOnce:
  "Handle testPatterns New ''/path/:n|^[0-9]{2}$'' emptyHandler [''GET''] = Inr constrainedOnce"
  by (simp add: constrainedOnce_def testPatterns_def string_defs insert_defs router_defs)

lemma Handle_constrainedTwice:
  "Handle testPatterns constrainedOnce ''/path/:n|[0-9]{2}'' emptyHandler [''POST''] =
     Inr constrainedTwice"
  by (simp add: constrainedOnce_def constrainedTwice_def testPatterns_def string_defs insert_defs
      router_defs)

lemma match_600:
  "MatchString twoDigits ''600''" "\<not> MatchString twoDigitsAnchored ''600''"
  "MatchString twoDigitsAnchored ''60''"
  by (simp_all add: MatchString_def twoDigits_def twoDigitsAnchored_def digit_def)

text \<open>
  C4, as stated, fails: \<open>addRoute\<close> assigns the constraint of the child whenever the
  segment supplies one, whether or not the child already has a constraint. Registering
  \<^verbatim>\<open>/path/:n|^[0-9]{2}$\<close> and then \<^verbatim>\<open>/path/:n|[0-9]{2}\<close> leaves the second constraint on
  the node, and \<^verbatim>\<open>/path/600\<close>, rejected before, matches.
\<close>

theorem constraint_first_wins_counterexample:
  "Handle testPatterns New ''/path/:n|^[0-9]{2}$'' emptyHandler [''GET''] = Inr constrainedOnce \<and>
   Handle testPatterns constrainedOnce ''/path/:n|[0-9]{2}'' emptyHandler [''POST''] =
     Inr constrainedTwice \<and>
   map_option rxPattern (nodeAt (root constrainedOnce) [(''path'', []), ([], ''n'')]) =
     Some (Some twoDigitsAnchored) \<and>
   map_option rxPattern (nodeAt (root constrainedTwice) [(''path'', []), ([], ''n'')]) =
     Some (Some twoDigits) \<and>
   twoDigits \<noteq> twoDigitsAnchored \<and>
   findHandler (root constrainedOnce) [''path'', ''600''] Map.empty = None \<and>
   findHandler (root constrainedTwice) [''path'', ''600''] Map.empty \<noteq> None"
proof -
  have "map_option rxPattern (nodeAt (root constrainedOnce) [(''path'', []), ([], ''n'')]) =
     Some (Some twoDigitsAnchored)"
    "map_option rxPattern (nodeAt (root constrainedTwice) [(''path'', []), ([], ''n'')]) =
     Some (Some twoDigits)"
    by (simp_all add: constrainedOnce_def constrainedTwice_def)
  moreover have "twoDigits \<noteq> twoDigitsAnchored"
    by (simp add: twoDigits_def twoDigitsAnchored_def digit_def)
  moreover have "findHandler (root constrainedOnce) [''path'', ''600''] Map.empty = None"
    "findHandler (root constrainedTwice) [''path'', ''600''] Map.empty \<noteq> None"
    by (simp_all add: constrainedOnce_def constrainedTwice_def constraintRejects_def match_600)
  ultimately show ?thesis
    using Handle_constrainedOnce Handle_constrainedTwice by simp
qed

text \<open>
  C4, amended. When a registration reaches a parameter position (by segments none of
  which is the wildcard marker), the node of that position exists afterwards, and its
  constraint is the pattern compiled from the text this registration supplies, whatever
  constraint the node had: the last registration that supplies a constraint determines
  it. A registration that supplies none leaves the node's constraint as it was (none for
  a new node). The registry is assumed to hold compiled patterns under their own texts, as
  it does when only \<open>addRoute\<close> fills it.
\<close>

theorem constraint_last_registration:
  assumes "addRoute compile cache t (pre @ seg # post) method h = Inr (cache', t')"
    and "''...'' \<notin> set pre"
    and "HasPrefix seg '':''"
    and "cacheConsistent compile cache"
    and "ks = map segmentKey pre @ [segmentKey seg]"
  shows "\<exists>n. nodeAt t' ks = Some n \<and>
           rxPattern n =
             (case segmentConstraint seg of
                Some pat \<Rightarrow> compile pat
              | None \<Rightarrow> (case nodeAt t ks of None \<Rightarrow> None | Some old \<Rightarrow> rxPattern old))"
  using assms
proof (induction pre arbitrary: t cache t' ks)
  case Nil
  from Nil.prems(3) have nw: "seg \<noteq> ''...''" by (rule HasPrefix_not_wildcard)
  from Nil.prems(1) [unfolded append_Nil] nw show ?case
  proof (cases rule: addRoute_step_nodeAt)
    case (1 cache1 i c c1 old)
    let ?child = "if post = [] then bindHandler method h c else c"
    have "rxPattern c1 = rxPattern ?child"
      using 1(3) by (rule rxPattern_addRoute)
    then have rx1: "rxPattern c1 = rxPattern c" by (simp split: if_splits)
    have at': "nodeAt t' ks = Some c1"
      using 1(1,2) Nil.prems(5) by simp
    have at: "(case nodeAt t ks of None \<Rightarrow> None | Some o' \<Rightarrow> rxPattern o') = rxPattern old"
      using 1(5) Nil.prems(5) by auto
    from 1(4) show ?thesis
    proof (elim disjE conjE exE)
      assume "segmentConstraint seg = None" "c = old"
      with at' at rx1 show ?thesis by simp
    next
      fix pat compiled
      assume *: "segmentConstraint seg = Some pat" "compile pat = Some compiled"
        "c = setRxPattern (Some (fst (LoadOrStore cache pat compiled))) old"
      from LoadOrStore_consistent(1) [OF Nil.prems(4) *(2)] * at' rx1 show ?thesis
        by simp
    qed
  qed
next
  case (Cons s pre)
  from Cons.prems(2) have nw: "s \<noteq> ''...''" by auto
  let ?ks' = "map segmentKey pre @ [segmentKey seg]"
  have ks: "ks = segmentKey s # ?ks'" "?ks' \<noteq> []"
    using Cons.prems(5) by simp_all
  from Cons.prems(1) [unfolded append_Cons] nw show ?case
  proof (cases rule: addRoute_step_nodeAt)
    case (1 cache1 i c c1 old)
    have rec: "addRoute compile cache1 c (pre @ seg # post) method h = Inr (cache', c1)"
      using 1(3) by simp
    have cons1: "cacheConsistent compile cache1"
      using 1(4) Cons.prems(4) by (auto intro: LoadOrStore_consistent(2))
    from Cons.prems(2) have "''...'' \<notin> set pre" by simp
    from Cons.IH [OF rec this Cons.prems(3) cons1 refl]
    obtain n where n: "nodeAt c1 ?ks' = Some n"
      "rxPattern n =
         (case segmentConstraint seg of
            Some pat \<Rightarrow> compile pat
          | None \<Rightarrow> (case nodeAt c ?ks' of None \<Rightarrow> None | Some old \<Rightarrow> rxPattern old))"
      by blast
    have at': "nodeAt t' ks = Some n"
      using 1(1,2) n(1) ks(1) by simp
    have "children c = children old"
      using 1(4) by auto
    then have "nodeAt c ?ks' = nodeAt old ?ks'"
      using ks(2) by (rule nodeAt_children)
    moreover have "nodeAt old ?ks' = nodeAt t ks"
      using 1(5) ks by (auto simp: nodeAt_leaf)
    ultimately show ?thesis
      using at' n(2) by (cases "segmentConstraint seg") simp_all
  qed
qed

theorem constraint_last_registration_witness:
  "addRoute testPatterns (rxCache constrainedOnce) (root constrainedOnce)
     ([''path''] @ '':n|[0-9]{2}'' # []) ''POST'' emptyHandler =
     Inr (rxCache constrainedTwice, root constrainedTwice) \<and>
   ''...'' \<notin> set [''path''] \<and> HasPrefix '':n|[0-9]{2}'' '':'' \<and>
   cacheConsistent testPatterns (rxCache constrainedOnce) \<and>
   (\<exists>n. nodeAt (root constrainedTwice) [(''path'', []), ([], ''n'')] = Some n \<and>
        rxPattern n = Some twoDigits)"
proof -
  have a: "addRoute testPatterns (rxCache constrainedOnce) (root constrainedOnce)
     ([''path''] @ '':n|[0-9]{2}'' # []) ''POST'' emptyHandler =
     Inr (rxCache constrainedTwice, root constrainedTwice)"
    by (simp add: constrainedOnce_def constrainedTwice_def testPatterns_def string_defs insert_defs)
  have b: "''...'' \<notin> set [''path'']" by simp
  have c: "HasPrefix '':n|[0-9]{2}'' '':''" by (simp add: HasPrefix_def)
  have d: "cacheConsistent testPatterns (rxCache constrainedOnce)"
    by (simp add: cacheConsistent_def constrainedOnce_def testPatterns_def)
  have "\<exists>n. nodeAt (root constrainedTwice) [(''path'', []), ([], ''n'')] = Some n \<and>
        rxPattern n = Some twoDigits"
    using constraint_last_registration [OF a b c d refl]
    by (simp add: segmentKey_def segmentConstraint_def string_defs testPatterns_def)
  with a b c d show ?thesis by simp
qed

section \<open>Constraints are searched for, not matched in full\<close>

lemma starClosure_invariant:
  assumes "\<forall>p\<in>set ps. P p" and "\<And>p q. P p \<Longrightarrow> q \<in> set (f p) \<Longrightarrow> P q"
  shows "\<forall>q\<in>set (starClosure f n ps). P q"
  using assms(1)
proof (induction n arbitrary: ps)
  case 0
  then show ?case by simp
next
  case (Suc n)
  have "\<forall>p\<in>set (concat (map f ps)). P p"
    using Suc.prems assms(2) by auto
  from Suc.IH [OF this] Suc.prems show ?case by auto
qed

lemma matchEnds_bounds:
  "j \<in> set (matchEnds re s i) \<Longrightarrow> i \<le> j \<and> (i \<le> length s \<longrightarrow> j \<le> length s)"
proof (induction re arbitrary: i j)
  case (Concat a b)
  then obtain k where "k \<in> set (matchEnds a s i)" "j \<in> set (matchEnds b s k)"
    by auto
  with Concat.IH [of k i] Concat.IH(2) [of j k] show ?case by auto
next
  case (Star a)
  let ?P = "\<lambda>p. i \<le> p \<and> (i \<le> length s \<longrightarrow> p \<le> length s)"
  have "\<forall>q\<in>set (starClosure (matchEnds a s) (length s) [i]). ?P q"
  proof (rule starClosure_invariant)
    show "\<forall>p\<in>set [i]. ?P p" by simp
  next
    fix p q
    assume "?P p" "q \<in> set (matchEnds a s p)"
    with Star.IH [of q p] show "?P q" by auto
  qed
  with Star.prems show ?case by simp
qed (auto split: if_splits)

lemma MatchString_search:
  "MatchString re s \<longleftrightarrow> (\<exists>i j. i \<le> j \<and> j \<le> length s \<and> j \<in> set (matchEnds re s i))"
proof
  assume "MatchString re s"
  then have "\<exists>i\<in>set [0..<Suc (length s)]. matchEnds re s i \<noteq> []"
    unfolding MatchString_def list_ex_iff .
  then obtain i where i: "i \<le> length s" "matchEnds re s i \<noteq> []"
    by (metis atLeastLessThan_iff set_upt less_Suc_eq_le)
  then obtain j where "j \<in> set (matchEnds re s i)"
    by (cases "matchEnds re s i") auto
  with matchEnds_bounds [OF this] i(1) show "\<exists>i j. i \<le> j \<and> j \<le> length s \<and> j \<in> set (matchEnds re s i)"
    by blast
next
  assume "\<exists>i j. i \<le> j \<and> j \<le> length s \<and> j \<in> set (matchEnds re s i)"
  then obtain i j where "i \<le> j" "j \<le> length s" "j \<in> set (matchEnds re s i)"
    by blast
  then have "i \<le> length s" "matchEnds re s i \<noteq> []"
    by auto
  then have "\<exists>i\<in>set [0..<Suc (length s)]. matchEnds re s i \<noteq> []"
    by (metis atLeastLessThan_iff set_upt less_Suc_eq_le zero_le)
  then show "MatchString re s"
    unfolding MatchString_def list_ex_iff .
qed

text \<open>
  The guard of the parameter loop searches: a parameter node with a constraint passes it
  for a segment exactly when the pattern matches between some two positions of the
  segment, not necessarily its beginning and its end. When the exact-match loop does not
  enter the node (its \<^verbatim>\<open>segment\<close> field differs from the segment of the path, which for a
  parameter node built by \<open>addRoute\<close> means that the segment of the path is not empty), a
  parent whose only child is that node descends into it exactly then, and fails
  otherwise. The example is the unanchored \<^verbatim>\<open>[0-9]{2}\<close>, which accepts \<^verbatim>\<open>600\<close> although
  it does not match all of it, and the anchored \<^verbatim>\<open>^[0-9]{2}$\<close>, which rejects it.
\<close>

lemma constraint_is_search:
  assumes "rxPattern c = Some re" and "paramName c \<noteq> []" and "segment c \<noteq> seg"
  shows "(\<not> constraintRejects c seg \<longleftrightarrow>
            (\<exists>i j. i \<le> j \<and> j \<le> length seg \<and> j \<in> set (matchEnds re seg i))) \<and>
         findHandler (RouteTree s hs [c] p False rx) (seg # rest) ps =
           (if \<exists>i j. i \<le> j \<and> j \<le> length seg \<and> j \<in> set (matchEnds re seg i)
            then findHandler c rest (ps(paramName c \<mapsto> seg)) else None)"
proof -
  let ?found = "\<exists>i j. i \<le> j \<and> j \<le> length seg \<and> j \<in> set (matchEnds re seg i)"
  have 1: "\<not> constraintRejects c seg \<longleftrightarrow> ?found"
    using assms(1) by (auto simp: constraintRejects_def MatchString_search)
  have 2: "findHandler (RouteTree s hs [c] p False rx) (seg # rest) ps =
      (if constraintRejects c seg then None else findHandler c rest (ps(paramName c \<mapsto> seg)))"
    using assms(2,3) by (cases "findHandler c rest (ps(paramName c \<mapsto> seg))") simp_all
  have "findHandler (RouteTree s hs [c] p False rx) (seg # rest) ps =
      (if ?found then findHandler c rest (ps(paramName c \<mapsto> seg)) else None)"
  proof (cases ?found)
    case True
    with 1 have nr: "\<not> constraintRejects c seg" by blast
    show ?thesis by (simp only: 2 if_not_P [OF nr] if_P [OF True])
  next
    case False
    with 1 have r: "constraintRejects c seg" by blast
    show ?thesis by (simp only: 2 if_P [OF r] if_not_P [OF False])
  qed
  with 1 show ?thesis by blast
qed

lemma constraint_is_search_example:
  "rxPattern constrainedUnanchored = Some twoDigits \<and>
   rxPattern constrainedAnchored = Some twoDigitsAnchored \<and>
   paramName constrainedUnanchored \<noteq> [] \<and> paramName constrainedAnchored \<noteq> [] \<and>
   segment constrainedUnanchored \<noteq> ''600'' \<and> segment constrainedAnchored \<noteq> ''600'' \<and>
   \<not> constraintRejects constrainedUnanchored ''600'' \<and>
   constraintRejects constrainedAnchored ''600'' \<and>
   length ''600'' \<notin> set (matchEnds twoDigits ''600'' 0) \<and>
   findHandler (RouteTree ''path'' [] [constrainedUnanchored] [] False None) [''600''] Map.empty =
     Some ([(''GET'', emptyHandler)], [''n'' \<mapsto> ''600''], [(''GET'', True)]) \<and>
   findHandler (RouteTree ''path'' [] [constrainedAnchored] [] False None) [''600''] Map.empty = None"
proof -
  have u: "rxPattern constrainedUnanchored = Some twoDigits"
    "paramName constrainedUnanchored \<noteq> []" "segment constrainedUnanchored \<noteq> ''600''"
    by (simp_all add: constrainedUnanchored_def)
  have a: "rxPattern constrainedAnchored = Some twoDigitsAnchored"
    "paramName constrainedAnchored \<noteq> []" "segment constrainedAnchored \<noteq> ''600''"
    by (simp_all add: constrainedAnchored_def)
  have yes: "\<exists>i j. i \<le> j \<and> j \<le> length ''600'' \<and> j \<in> set (matchEnds twoDigits ''600'' i)"
    by (intro exI [of _ 0] exI [of _ 2]) (simp add: twoDigits_def digit_def)
  have no: "\<not> (\<exists>i j. i \<le> j \<and> j \<le> length ''600'' \<and>
       j \<in> set (matchEnds twoDigitsAnchored ''600'' i))"
    using match_600(2) unfolding MatchString_search .
  have full: "length ''600'' \<notin> set (matchEnds twoDigits ''600'' 0)"
    by (simp add: twoDigits_def digit_def)
  note tu = constraint_is_search [OF u, where s = "''path''" and hs = "[]" and p = "[]"
      and rx = None and rest = "[]" and ps = Map.empty]
  note ta = constraint_is_search [OF a, where s = "''path''" and hs = "[]" and p = "[]"
      and rx = None and rest = "[]" and ps = Map.empty]
  have 1: "\<not> constraintRejects constrainedUnanchored ''600''"
    using tu yes by blast
  have 2: "constraintRejects constrainedAnchored ''600''"
    using ta no by blast
  have 3: "findHandler (RouteTree ''path'' [] [constrainedUnanchored] [] False None) [''600'']
      Map.empty = Some ([(''GET'', emptyHandler)], [''n'' \<mapsto> ''600''], [(''GET'', True)])"
  proof -
    from tu have "findHandler (RouteTree ''path'' [] [constrainedUnanchored] [] False None)
        [''600''] Map.empty =
        findHandler constrainedUnanchored [] (Map.empty(paramName constrainedUnanchored \<mapsto> ''600''))"
      by (simp only: if_P [OF yes])
    then show ?thesis
      by (simp add: constrainedUnanchored_def makeAllowedMethodsMap_def)
  qed
  have 4: "findHandler (RouteTree ''path'' [] [constrainedAnchored] [] False None) [''600'']
      Map.empty = None"
    using ta by (simp only: if_not_P [OF no])
  from u a 1 2 full 3 4 show ?thesis by simp
qed

lemma Handle_constrainedRoot:
  "Handle testPatterns New ''/:n|^[0-9]{2}$'' (writeText ''n'') [''GET''] = Inr constrainedRoot"
  by (simp add: constrainedRoot_def testPatterns_def string_defs insert_defs router_defs)

text \<open>
  C5 at the input where the code departs from it. The constraint is tested in the
  parameter loop only. The loop for exact matches, which runs first, compares the
  \<^verbatim>\<open>segment\<close> field alone, and that field is empty in every parameter node: for an empty
  segment of the path it enters the parameter node without testing the constraint and
  without capturing. With \<^verbatim>\<open>/:n|^[0-9]{2}$\<close> registered, the only segment of \<^verbatim>\<open>GET /\<close> is
  empty; the pattern finds no match in it and the guard rejects it, yet the node is
  matched and its handler runs.
\<close>

theorem constraint_bypassed_empty_segment:
  "Handle testPatterns New ''/:n|^[0-9]{2}$'' (writeText ''n'') [''GET''] = Inr constrainedRoot \<and>
   Split (Trim ''/'' ''/'') (CHR ''/'') = [[]] \<and>
   map nodeKey (children (root constrainedRoot)) = [([], ''n'')] \<and>
   rxPattern (children (root constrainedRoot) ! 0) = Some twoDigitsAnchored \<and>
   MatchString twoDigitsAnchored [] = False \<and>
   constraintRejects (children (root constrainedRoot) ! 0) [] = True \<and>
   findHandler (root constrainedRoot) [[]] Map.empty =
     Some ([(''GET'', writeText ''n''), (''HEAD'', writeText ''n'')], Map.empty,
           [(''GET'', True), (''HEAD'', True)]) \<and>
   ServeHTTP id constrainedRoot (request ''GET'' ''/'') emptyWriter =
     Inr (emptyWriter\<lparr>Body := ''n''\<rparr>)"
proof -
  have no: "MatchString twoDigitsAnchored [] = False"
    by (simp add: MatchString_def twoDigitsAnchored_def twoDigits_def digit_def)
  have "Split (Trim ''/'' ''/'') (CHR ''/'') = [[]]"
    by (simp add: Trim_def)
  moreover have "map nodeKey (children (root constrainedRoot)) = [([], ''n'')]"
    "rxPattern (children (root constrainedRoot) ! 0) = Some twoDigitsAnchored"
    by (simp_all add: constrainedRoot_def nodeKey_def)
  moreover have "constraintRejects (children (root constrainedRoot) ! 0) [] = True"
    by (simp add: constrainedRoot_def constraintRejects_def no)
  moreover have "findHandler (root constrainedRoot) [[]] Map.empty =
     Some ([(''GET'', writeText ''n''), (''HEAD'', writeText ''n'')], Map.empty,
           [(''GET'', True), (''HEAD'', True)])"
    by (simp add: constrainedRoot_def makeAllowedMethodsMap_def)
  moreover have "ServeHTTP id constrainedRoot (request ''GET'' ''/'') emptyWriter =
     Inr (emptyWriter\<lparr>Body := ''n''\<rparr>)"
    by (simp add: constrainedRoot_def ServeHTTP_def allowedLookup_def makeAllowedMethodsMap_def
        request_def Trim_def writeText_def emptyWriter_def)
  ultimately show ?thesis
    using Handle_constrainedRoot no by simp
qed

section \<open>Literal children and wildcard terminals in matching\<close>

lemma firstMatch_index:
  "i < length xs \<Longrightarrow> (\<forall>j<i. f (xs ! j) = None) \<Longrightarrow> f (xs ! i) = Some r \<Longrightarrow>
     firstMatch f xs = Some r"
proof (induction xs arbitrary: i)
  case Nil
  then show ?case by simp
next
  case (Cons x xs)
  show ?case
  proof (cases i)
    case 0
    with Cons.prems show ?thesis by simp
  next
    case (Suc k)
    with Cons.prems have "f x = None" by auto
    moreover have "firstMatch f xs = Some r"
    proof (rule Cons.IH [of k])
      show "k < length xs" using Cons.prems(1) Suc by simp
      show "\<forall>j<k. f (xs ! j) = None"
        using Cons.prems(2) Suc by auto
      show "f (xs ! k) = Some r" using Cons.prems(3) Suc by simp
    qed
    ultimately show ?thesis by simp
  qed
qed

text \<open>In a well-formed node, descending by a non-empty segment goes to the literal child
  when the subtree of that child matches.\<close>

lemma findHandler_literal_child:
  assumes "wellFormed t" "\<not> isWildcard t" "seg \<noteq> []"
    "childIndex (children t) seg [] = Some i"
    "findHandler (children t ! i) rest ps = Some r"
  shows "findHandler t (seg # rest) ps = Some r"
proof -
  obtain s hs cs p w rx where t: "t = RouteTree s hs cs p w rx" by (cases t)
  let ?exact = "\<lambda>child. if segment child = seg then findHandler child rest ps else None"
  from childIndex_Some [OF assms(4)] have i: "i < length cs" "nodeKey (cs ! i) = (seg, [])"
    "\<forall>j<i. nodeKey (cs ! j) \<noteq> (seg, [])"
    by (simp_all add: t)
  have "?exact (cs ! j) = None" if "j < i" for j
  proof -
    from that i(1) have "cs ! j \<in> set cs" by simp
    with assms(1) have "wellFormed (cs ! j)" by (simp add: t)
    then have "segment (cs ! j) = [] \<or> paramName (cs ! j) = []"
      by (simp add: wellFormed_sel [of "cs ! j"])
    moreover from i(3) that have "nodeKey (cs ! j) \<noteq> (seg, [])" by simp
    ultimately have "segment (cs ! j) \<noteq> seg"
      using assms(3) by (auto simp: nodeKey_def)
    then show ?thesis by simp
  qed
  moreover have "?exact (cs ! i) = Some r"
    using i(2) assms(5) by (simp add: nodeKey_def t)
  ultimately have "firstMatch ?exact cs = Some r"
    using i(1) by (intro firstMatch_index [of i]) simp_all
  with assms(2) show ?thesis by (simp add: t)
qed

lemma findHandler_wildcard_path:
  assumes "wellFormed t" "\<forall>s\<in>set prefix. s \<noteq> []"
    "nodeAt t (map (\<lambda>s. (s, [])) prefix) = Some n" "isWildcard n"
    "noWildcardAbove t prefix" "rest \<noteq> []"
  shows "findHandler t (prefix @ rest) ps =
           Some (handlers n, ps(''...'' \<mapsto> Join rest ''/''), makeAllowedMethodsMap (handlers n))"
  using assms(1,2,3,5)
proof (induction prefix arbitrary: t)
  case Nil
  then have "n = t" by simp
  moreover obtain r rs where "rest = r # rs"
    using assms(6) by (cases rest) auto
  ultimately show ?case
    using assms(4) by (cases t) (auto simp: fun_eq_iff)
next
  case (Cons s prefix)
  from Cons.prems(3) obtain i where i: "childIndex (children t) s [] = Some i"
    "nodeAt (children t ! i) (map (\<lambda>s. (s, [])) prefix) = Some n"
    by (auto split: option.splits)
  from childIndex_Some [OF i(1)] have "children t ! i \<in> set (children t)"
    by simp
  with Cons.prems(1) have wf: "wellFormed (children t ! i)"
    by (simp add: wellFormed_sel [of t])
  from Cons.prems(4) i(1) have nw: "\<not> isWildcard t" "noWildcardAbove (children t ! i) prefix"
    by simp_all
  from Cons.prems(2) have ne: "s \<noteq> []" "\<forall>s\<in>set prefix. s \<noteq> []"
    by simp_all
  from Cons.IH [OF wf ne(2) i(2) nw(2)]
  have "findHandler (children t ! i) (prefix @ rest) ps =
      Some (handlers n, ps(''...'' \<mapsto> Join rest ''/''), makeAllowedMethodsMap (handlers n))" .
  with Cons.prems(1) nw(1) ne(1) i(1) show ?case
    unfolding append_Cons by (rule findHandler_literal_child)
qed


lemma nodeAt_bindHandler:
  "ks \<noteq> [] \<Longrightarrow> nodeAt (bindHandler m h t) ks = nodeAt t ks"
  "ks \<noteq> [] \<Longrightarrow> nodeAt (setRxPattern rx t) ks = nodeAt t ks"
  "ks \<noteq> [] \<Longrightarrow> nodeAt (setIsWildcard w t) ks = nodeAt t ks"
  by (rule nodeAt_children; simp)+

text \<open>Registering a pattern with the wildcard marker flags the node before the marker and
  binds the handler there.\<close>

lemma addRoute_wildcard_node:
  assumes "addRoute compile cache t (prefix @ ''...'' # post) method h = Inr (cache', t')"
    and "''...'' \<notin> set prefix"
  shows "\<exists>n. nodeAt t' (map segmentKey prefix) = Some n \<and> isWildcard n \<and>
           map_of (handlers n) method = Some h"
  using assms
proof (induction prefix arbitrary: t cache t')
  case Nil
  then have "t' = bindHandler method h (setIsWildcard True t)"
    by simp
  then show ?case by (simp add: map_of_mapStore)
next
  case (Cons s prefix)
  from Cons.prems(2) have nw: "s \<noteq> ''...''" "''...'' \<notin> set prefix" by auto
  from Cons.prems(1) [unfolded append_Cons] nw(1) show ?case
  proof (cases rule: addRoute_step_nodeAt)
    case (1 cache1 i c c1 old)
    then have "addRoute compile cache1 c (prefix @ ''...'' # post) method h = Inr (cache', c1)"
      by simp
    from Cons.IH [OF this nw(2)] 1(1,2) show ?thesis by simp
  qed
qed

lemma wildcardBound_assign:
  assumes "wildcardBound t ks method"
  shows "wildcardBound (bindHandler m h t) ks method"
    and "wildcardBound (setRxPattern rx t) ks method"
    and "wildcardBound (bindHandler m h (setIsWildcard True t)) ks method"
proof -
  show "wildcardBound (bindHandler m h t) ks method"
    using assms by (cases "ks = []") (auto simp: wildcardBound_def nodeAt_bindHandler map_of_mapStore)
  show "wildcardBound (setRxPattern rx t) ks method"
    using assms by (cases "ks = []") (auto simp: wildcardBound_def nodeAt_bindHandler)
  show "wildcardBound (bindHandler m h (setIsWildcard True t)) ks method"
    using assms by (cases "ks = []") (auto simp: wildcardBound_def nodeAt_bindHandler map_of_mapStore)
qed

lemma wildcardBound_addRoute:
  assumes "wildcardBound t ks method"
    and "addRoute compile cache t segs m h = Inr (cache', t')"
  shows "wildcardBound t' ks method"
  using assms
proof (induction segs arbitrary: t cache t' ks)
  case Nil
  then show ?case by simp
next
  case (Cons seg rest)
  show ?case
  proof (cases "seg = ''...''")
    case True
    with Cons.prems(2) have "t' = bindHandler m h (setIsWildcard True t)" by simp
    with Cons.prems(1) show ?thesis by (simp add: wildcardBound_assign(3))
  next
    case False
    from Cons.prems(2) False show ?thesis
    proof (cases rule: addRoute_step_nodeAt)
      case step: (1 cache1 i c c1 old)
      show ?thesis
      proof (cases ks)
        case Nil
        with Cons.prems(1) step(8,9) show ?thesis
          by (simp add: wildcardBound_def)
      next
        case ks: (Cons k ks')
        from Cons.prems(1) obtain j where j: "childIndex (children t) (fst k) (snd k) = Some j"
          "wildcardBound (children t ! j) ks' method"
          by (auto simp: wildcardBound_def ks split: option.splits)
        from step(7) [OF j(1)] have j': "childIndex (children t') (fst k) (snd k) = Some j" .
        from childIndex_Some [OF j(1)] have jlen: "j < length (children t)" by simp
        show ?thesis
        proof (cases "j = i")
          case False
          with step(6) jlen have "children t' ! j = children t ! j" by simp
          with j(2) j' show ?thesis
            by (simp add: wildcardBound_def ks)
        next
          case True
          with step(5) jlen have "old = children t ! i" by auto
          with j(2) True have "wildcardBound old ks' method" by simp
          with step(4) have "wildcardBound c ks' method"
            by (auto simp: wildcardBound_assign(2))
          then have "wildcardBound (if rest = [] then bindHandler m h c else c) ks' method"
            by (simp add: wildcardBound_assign(1))
          from Cons.IH [OF this step(3)] have "wildcardBound c1 ks' method" .
          with j' True step(2) show ?thesis
            by (simp add: wildcardBound_def ks)
        qed
      qed
    qed
  qed
qed

lemma wildcardBound_grownFrom:
  "grownFrom compile t t' \<Longrightarrow> wildcardBound t ks method \<Longrightarrow> wildcardBound t' ks method"
  by (induction rule: grownFrom.induct) (auto intro: wildcardBound_addRoute)

lemma reachableTree_grownFrom:
  "grownFrom compile t t' \<Longrightarrow> reachableTree compile t \<Longrightarrow> reachableTree compile t'"
  by (induction rule: grownFrom.induct) (auto intro: reachableTree.add)

lemma segmentKey_literal: "literalSegment s \<Longrightarrow> segmentKey s = (s, [])"
  by (simp add: literalSegment_def segmentKey_def)

lemma Handle_paramThenRoot:
  "\<exists>m. Handle noPatterns New ''/:id'' (writeText ''param'') [''GET''] = Inr m \<and>
       Handle noPatterns m ''/'' (writeText ''root'') [''GET''] = Inr paramThenRoot"
  by (simp add: paramThenRoot_def string_defs insert_defs router_defs)

lemma Handle_paramThenLiteral:
  "\<exists>m. Handle noPatterns New ''/:id'' (writeText ''param'') [''GET''] = Inr m \<and>
       Handle noPatterns m ''/one'' (writeText ''literal'') [''GET''] = Inr paramThenLiteral"
  by (simp add: paramThenLiteral_def string_defs insert_defs router_defs)

lemma Handle_nestedWildcards:
  "\<exists>m. Handle noPatterns New ''/...'' emptyHandler [''GET''] = Inr m \<and>
       Handle noPatterns m ''/prefix/...'' emptyHandler [''GET''] = Inr nestedWildcards"
  by (simp add: nestedWildcards_def string_defs insert_defs router_defs)

lemma Handle_prefixWildcard:
  "Handle noPatterns New ''/prefix/...'' emptyHandler [''GET''] = Inr prefixWildcard"
  by (simp add: prefixWildcard_def string_defs insert_defs router_defs)

lemma reachable_paramThenRoot: "reachableTree noPatterns (root paramThenRoot)"
  using Handle_paramThenRoot reachableTree_New by (blast intro: reachableTree_Handle)

lemma reachable_paramThenLiteral: "reachableTree noPatterns (root paramThenLiteral)"
  using Handle_paramThenLiteral reachableTree_New by (blast intro: reachableTree_Handle)

lemma reachable_nestedWildcards: "reachableTree noPatterns (root nestedWildcards)"
  using Handle_nestedWildcards reachableTree_New by (blast intro: reachableTree_Handle)

text \<open>
  C1 at the input where the code departs from it. The loop for exact matches compares
  only the \<^verbatim>\<open>segment\<close> field, which is empty in every parameter node, so for an empty
  segment of the path it descends into parameter children as if they were literal ones,
  in insertion order and without capturing. With \<^verbatim>\<open>/:id\<close> registered before \<^verbatim>\<open>/\<close>, the
  request \<^verbatim>\<open>GET /\<close> (whose only segment is empty) is answered by the handler of \<^verbatim>\<open>/:id\<close>,
  although the literal child, the second child of the root, matches.
\<close>

theorem literal_precedence_empty_segment:
  "(\<exists>m. Handle noPatterns New ''/:id'' (writeText ''param'') [''GET''] = Inr m \<and>
        Handle noPatterns m ''/'' (writeText ''root'') [''GET''] = Inr paramThenRoot) \<and>
   Split (Trim ''/'' ''/'') (CHR ''/'') = [[]] \<and>
   map nodeKey (children (root paramThenRoot)) = [([], ''id''), ([], [])] \<and>
   findHandler (children (root paramThenRoot) ! 1) [] Map.empty =
     Some ([(''GET'', writeText ''root''), (''HEAD'', writeText ''root'')], Map.empty,
           [(''GET'', True), (''HEAD'', True)]) \<and>
   findHandler (root paramThenRoot) [[]] Map.empty =
     Some ([(''GET'', writeText ''param''), (''HEAD'', writeText ''param'')], Map.empty,
           [(''GET'', True), (''HEAD'', True)]) \<and>
   ServeHTTP id paramThenRoot (request ''GET'' ''/'') emptyWriter =
     Inr (emptyWriter\<lparr>Body := ''param''\<rparr>)"
proof -
  have "Split (Trim ''/'' ''/'') (CHR ''/'') = [[]]"
    by (simp add: Trim_def)
  moreover have "map nodeKey (children (root paramThenRoot)) = [([], ''id''), ([], [])]"
    by (simp add: paramThenRoot_def nodeKey_def)
  moreover have "findHandler (children (root paramThenRoot) ! 1) [] Map.empty =
     Some ([(''GET'', writeText ''root''), (''HEAD'', writeText ''root'')], Map.empty,
           [(''GET'', True), (''HEAD'', True)])"
    by (simp add: paramThenRoot_def makeAllowedMethodsMap_def)
  moreover have "findHandler (root paramThenRoot) [[]] Map.empty =
     Some ([(''GET'', writeText ''param''), (''HEAD'', writeText ''param'')], Map.empty,
           [(''GET'', True), (''HEAD'', True)])"
    by (simp add: paramThenRoot_def makeAllowedMethodsMap_def)
  moreover have "ServeHTTP id paramThenRoot (request ''GET'' ''/'') emptyWriter =
     Inr (emptyWriter\<lparr>Body := ''param''\<rparr>)"
    by (simp add: paramThenRoot_def serve_defs request_def Trim_def writeText_def emptyWriter_def)
  ultimately show ?thesis
    using Handle_paramThenRoot by simp
qed

text \<open>
  Literal children take precedence over parameter children for non-empty segments: at every node of a tree built by registrations
  that is not a wildcard terminal, and for every non-empty segment, when the subtree of
  the literal child for the segment matches the rest of the path, its result is the
  result at the node, whatever parameter children the node has and wherever they stand.
\<close>

theorem literal_child_precedence:
  assumes "reachableTree compile t" and "n \<in> set (subtrees t)"
    and "\<not> isWildcard n" and "seg \<noteq> []"
    and "childIndex (children n) seg [] = Some i"
    and "findHandler (children n ! i) rest ps = Some r"
  shows "findHandler n (seg # rest) ps = Some r"
proof -
  from assms(1,2) have "wellFormed n"
    by (blast intro: subtrees_wellFormed reachableTree_wellFormed)
  then show ?thesis
    using assms(3-6) by (rule findHandler_literal_child)
qed

theorem literal_child_precedence_witness:
  "reachableTree noPatterns (root paramThenLiteral) \<and>
   root paramThenLiteral \<in> set (subtrees (root paramThenLiteral)) \<and>
   \<not> isWildcard (root paramThenLiteral) \<and> ''one'' \<noteq> [] \<and>
   childIndex (children (root paramThenLiteral)) ''one'' [] = Some 1 \<and>
   findHandler (children (root paramThenLiteral) ! 1) [] Map.empty =
     Some ([(''GET'', writeText ''literal''), (''HEAD'', writeText ''literal'')], Map.empty,
           [(''GET'', True), (''HEAD'', True)]) \<and>
   findHandler (root paramThenLiteral) [''one''] Map.empty =
     Some ([(''GET'', writeText ''literal''), (''HEAD'', writeText ''literal'')], Map.empty,
           [(''GET'', True), (''HEAD'', True)])"
proof -
  have a: "root paramThenLiteral \<in> set (subtrees (root paramThenLiteral))"
    "\<not> isWildcard (root paramThenLiteral)" "''one'' \<noteq> []"
    "childIndex (children (root paramThenLiteral)) ''one'' [] = Some 1"
    by (simp_all add: paramThenLiteral_def)
  have b: "findHandler (children (root paramThenLiteral) ! 1) [] Map.empty =
     Some ([(''GET'', writeText ''literal''), (''HEAD'', writeText ''literal'')], Map.empty,
           [(''GET'', True), (''HEAD'', True)])"
    by (simp add: paramThenLiteral_def makeAllowedMethodsMap_def)
  from literal_child_precedence [OF reachable_paramThenLiteral a b] reachable_paramThenLiteral a b
  show ?thesis by simp
qed

text \<open>
  C2, as stated, fails: the matcher stops at the first wildcard terminal on its way down,
  so a shorter wildcard pattern captures a longer remainder. With \<^verbatim>\<open>/...\<close> and
  \<^verbatim>\<open>/prefix/...\<close> registered, the path \<^verbatim>\<open>/prefix/a/b\<close> captures \<^verbatim>\<open>prefix/a/b\<close>.
\<close>

theorem wildcard_capture_counterexample:
  "(\<exists>m. Handle noPatterns New ''/...'' emptyHandler [''GET''] = Inr m \<and>
        Handle noPatterns m ''/prefix/...'' emptyHandler [''GET''] = Inr nestedWildcards) \<and>
   Split (Trim ''/prefix/a/b'' ''/'') (CHR ''/'') = [''prefix''] @ [''a'', ''b''] \<and>
   findHandler (root nestedWildcards) ([''prefix''] @ [''a'', ''b'']) Map.empty =
     Some ([(''GET'', emptyHandler), (''HEAD'', emptyHandler)], [''...'' \<mapsto> ''prefix/a/b''],
           [(''GET'', True), (''HEAD'', True)]) \<and>
   ''prefix/a/b'' \<noteq> Join [''a'', ''b''] ''/''"
proof -
  have "Split (Trim ''/prefix/a/b'' ''/'') (CHR ''/'') = [''prefix''] @ [''a'', ''b'']"
    by (simp add: Trim_def)
  moreover have "findHandler (root nestedWildcards) ([''prefix''] @ [''a'', ''b'']) Map.empty =
     Some ([(''GET'', emptyHandler), (''HEAD'', emptyHandler)], [''...'' \<mapsto> ''prefix/a/b''],
           [(''GET'', True), (''HEAD'', True)])"
    by (simp add: nestedWildcards_def makeAllowedMethodsMap_def)
  ultimately show ?thesis
    using Handle_nestedWildcards by simp
qed

text \<open>
  C2, amended. Let a pattern made of non-empty literal segments followed by the wildcard
  marker be registered for a method on a tree built by registrations, and let any
  registrations follow. If, in the resulting tree, no node on the way down the literal
  segments of the pattern is a wildcard terminal before the node of its last segment,
  then every path made of those segments followed by one or more segments matches, the
  matched node binds the method (to the registered handler when nothing was registered
  since), and the value captured under \<^verbatim>\<open>...\<close> is the remaining segments joined by
  \<^verbatim>\<open>/\<close>.
\<close>

theorem wildcard_capture:
  assumes "reachableTree compile t0"
    and "addRoute compile cache t0 (prefix @ [''...'']) method h = Inr (cache', t1)"
    and "grownFrom compile t1 t"
    and "\<forall>s\<in>set prefix. literalSegment s"
    and "noWildcardAbove t prefix"
    and "rest \<noteq> []"
  shows "\<exists>hs. findHandler t (prefix @ rest) ps =
                Some (hs, ps(''...'' \<mapsto> Join rest ''/''), makeAllowedMethodsMap hs) \<and>
              map_of hs method \<noteq> None \<and> (t = t1 \<longrightarrow> map_of hs method = Some h)"
proof -
  have keys: "map segmentKey prefix = map (\<lambda>s. (s, [])) prefix"
    using assms(4) by (simp add: segmentKey_literal)
  have nw: "''...'' \<notin> set prefix" and ne: "\<forall>s\<in>set prefix. s \<noteq> []"
    using assms(4) by (auto simp: literalSegment_def)
  from addRoute_wildcard_node [OF assms(2) nw] keys
  obtain n1 where n1: "nodeAt t1 (map (\<lambda>s. (s, [])) prefix) = Some n1" "isWildcard n1"
    "map_of (handlers n1) method = Some h"
    by auto
  then have "wildcardBound t1 (map (\<lambda>s. (s, [])) prefix) method"
    by (auto simp: wildcardBound_def)
  with assms(3) have "wildcardBound t (map (\<lambda>s. (s, [])) prefix) method"
    by (rule wildcardBound_grownFrom)
  then obtain n where n: "nodeAt t (map (\<lambda>s. (s, [])) prefix) = Some n" "isWildcard n"
    "map_of (handlers n) method \<noteq> None"
    by (auto simp: wildcardBound_def)
  have "reachableTree compile t1"
    using assms(1,2) by (rule reachableTree.add)
  with assms(3) have "reachableTree compile t"
    by (rule reachableTree_grownFrom)
  then have "wellFormed t"
    by (rule reachableTree_wellFormed)
  from findHandler_wildcard_path [OF this ne n(1,2) assms(5,6)]
  have "findHandler t (prefix @ rest) ps =
      Some (handlers n, ps(''...'' \<mapsto> Join rest ''/''), makeAllowedMethodsMap (handlers n))" .
  moreover have "map_of (handlers n) method = Some h" if "t = t1"
    using that n(1) n1(1,3) by simp
  ultimately show ?thesis
    using n(3) by blast
qed

theorem wildcard_capture_witness:
  "reachableTree noPatterns (root New) \<and>
   addRoute noPatterns [] (root New) ([''prefix''] @ [''...'']) ''GET'' emptyHandler =
     Inr ([], prefixWildcardGet) \<and>
   grownFrom noPatterns prefixWildcardGet (root prefixWildcard) \<and>
   literalSegment ''prefix'' \<and>
   noWildcardAbove (root prefixWildcard) [''prefix''] \<and>
   [''anything'', ''else''] \<noteq> [] \<and>
   Handle noPatterns New ''/prefix/...'' emptyHandler [''GET''] = Inr prefixWildcard \<and>
   Split (Trim ''/prefix/anything/else'' ''/'') (CHR ''/'') = [''prefix''] @ [''anything'', ''else''] \<and>
   (\<exists>hs. findHandler (root prefixWildcard) ([''prefix''] @ [''anything'', ''else'']) Map.empty =
           Some (hs, [''...'' \<mapsto> ''anything/else''], makeAllowedMethodsMap hs) \<and>
         map_of hs ''GET'' \<noteq> None)"
proof -
  have a: "addRoute noPatterns [] (root New) ([''prefix''] @ [''...'']) ''GET'' emptyHandler =
     Inr ([], prefixWildcardGet)"
    by (simp add: prefixWildcardGet_def New_def insert_defs string_defs)
  have "addRoute noPatterns [] prefixWildcardGet [''prefix'', ''...''] ''HEAD'' emptyHandler =
     Inr ([], root prefixWildcard)"
    by (simp add: prefixWildcardGet_def prefixWildcard_def insert_defs string_defs)
  with grownFrom.same have g: "grownFrom noPatterns prefixWildcardGet (root prefixWildcard)"
    by (rule grownFrom.add)
  have l: "\<forall>s\<in>set [''prefix'']. literalSegment s"
    by (simp add: literalSegment_def HasPrefix_def)
  have n: "noWildcardAbove (root prefixWildcard) [''prefix'']"
    by (simp add: prefixWildcard_def)
  have r: "[''anything'', ''else''] \<noteq> []" by simp
  have s: "Split (Trim ''/prefix/anything/else'' ''/'') (CHR ''/'') =
      [''prefix''] @ [''anything'', ''else'']"
    by (simp add: Trim_def)
  from wildcard_capture [OF reachableTree_New a g l n r, of Map.empty]
  have "\<exists>hs. findHandler (root prefixWildcard) ([''prefix''] @ [''anything'', ''else'']) Map.empty =
           Some (hs, [''...'' \<mapsto> ''anything/else''], makeAllowedMethodsMap hs) \<and>
         map_of hs ''GET'' \<noteq> None"
    by auto
  moreover have "literalSegment ''prefix''"
    using l by simp
  ultimately show ?thesis
    using reachableTree_New [of noPatterns] a g n r s Handle_prefixWildcard by simp
qed

end
